theory Spec2Isabelle
  imports
    Complex_Main
    "HOL-Library.List_Lexorder"
    "HOL-Library.Char_ord"
    "HOL-Library.AList"
    "HOL-Library.Extended_Nat"
begin

section \<open>Brandes-K\"opf horizontal coordinate assignment (src/position/bk.js)\<close>

text \<open>
  The development embeds the functions of \<^verbatim>\<open>src/position/bk.js\<close> as HOL functions.

  \<^item> Vertex ids are JavaScript strings (graphlib turns every id into an object key), so a
    vertex is a \<open>string\<close>; \<open>v > w\<close> on ids is the lexicographic order of the library
    (\<open>List_Lexorder\<close> over \<open>Char_ord\<close>), and a string is truthy iff it is not empty.
  \<^item> JavaScript numbers are modelled as exact reals. Where the source would read a missing
    key into arithmetic (producing \<open>undefined\<close> or \<open>NaN\<close>) or dereference
    \<open>undefined\<close>, the model returns \<open>None\<close>.
  \<^item> A plain object that the code only looks up is a map; an object whose keys the code
    enumerates is an association list in insertion order (\<open>AList.update\<close> overwrites in
    place and appends a new key), enumerated in the order of JavaScript's own-property keys.
  \<^item> The input graph is the capability record the code consumes: \<open>g.nodes()\<close>,
    \<open>g.node(v)\<close>, \<open>g.predecessors(v)\<close>, \<open>g.successors(v)\<close> and \<open>g.graph()\<close>.
\<close>

subsection \<open>Data model\<close>

type_synonym vertex = string

text \<open>The values the \<open>dummy\<close> attribute takes: absent, a boolean, or a string.\<close>

datatype jsval = Undefined | JBool bool | JStr string

fun truthy :: "jsval \<Rightarrow> bool" where
  "truthy Undefined = False"
| "truthy (JBool b) = b"
| "truthy (JStr s) = (s \<noteq> [])"

record label =
  rank :: "nat option"
  order :: nat
  width :: real
  dummy :: jsval
  labelpos :: "string option"
  borderType :: "string option"

text \<open>The graph label \<open>g.graph()\<close>; its \<open>align\<close> attribute is the field \<open>graphAlign\<close> (the
  functions below have a local \<open>align\<close> of their own).\<close>

record graphlabel =
  nodesep :: real
  edgesep :: real
  graphAlign :: "string option"

record graph =
  nodes :: "vertex list"
  node :: "vertex \<Rightarrow> label"
  predecessors :: "vertex \<Rightarrow> vertex list"
  successors :: "vertex \<Rightarrow> vertex list"
  graph_label :: graphlabel

text \<open>\<open>String.prototype.toLowerCase\<close> on the ASCII letters.\<close>

definition toLowerCaseChar :: "char \<Rightarrow> char" where
  "toLowerCaseChar c =
     (case map_of (zip ''ABCDEFGHIJKLMNOPQRSTUVWXYZ'' ''abcdefghijklmnopqrstuvwxyz'') c of
        Some l \<Rightarrow> l
      | None \<Rightarrow> c)"

definition toLowerCase :: "string \<Rightarrow> string" where
  "toLowerCase s = map toLowerCaseChar s"

subsection \<open>The conflict store: \<open>addConflict\<close>, \<open>hasConflict\<close>\<close>

text \<open>
  \<open>conflicts\<close> is an object of objects: \<open>conflicts[v][w] = true\<close>. It is only looked
  up (\<open>_.has\<close>), so it is a map of maps.  The map holds the own properties only: what
  \<open>{}\<close> inherits from \<open>Object.prototype\<close> (a lookup of \<open>conflicts["constructor"]\<close>) is not
  part of the model, which takes vertex ids not to be names of inherited properties.
\<close>

type_synonym conflicts = "vertex \<rightharpoonup> (vertex \<rightharpoonup> bool)"

definition addConflict :: "conflicts \<Rightarrow> vertex \<Rightarrow> vertex \<Rightarrow> conflicts" where
  "addConflict c v w =
     (let (v', w') = (if v > w then (w, v) else (v, w));
          conflictsV = (case c v' of None \<Rightarrow> Map.empty | Some m \<Rightarrow> m)
      in c(v' \<mapsto> conflictsV(w' \<mapsto> True)))"

definition hasConflict :: "conflicts \<Rightarrow> vertex \<Rightarrow> vertex \<Rightarrow> bool" where
  "hasConflict c v w =
     (let (v', w') = (if v > w then (w, v) else (v, w))
      in case c v' of None \<Rightarrow> False | Some m \<Rightarrow> w' \<in> dom m)"

text \<open>A store built by a sequence of \<open>addConflict\<close> calls, starting from \<open>{}\<close>.\<close>

definition addConflicts :: "(vertex \<times> vertex) list \<Rightarrow> conflicts" where
  "addConflicts ps = foldl (\<lambda>c (v, w). addConflict c v w) Map.empty ps"

subsection \<open>The separation function \<open>sep\<close>\<close>

definition sep :: "real \<Rightarrow> real \<Rightarrow> bool \<Rightarrow> graph \<Rightarrow> vertex \<Rightarrow> vertex \<Rightarrow> real" where
  "sep nodeSep edgeSep reverseSep g v w =
     (let vLabel = node g v;
          wLabel = node g w;
          sum0 = 0 + width vLabel / 2;
          delta1 = (case labelpos vLabel of
                      None \<Rightarrow> None
                    | Some lp \<Rightarrow>
                        if toLowerCase lp = ''l'' then Some (- width vLabel / 2)
                        else if toLowerCase lp = ''r'' then Some (width vLabel / 2)
                        else None);
          sum1 = (case delta1 of
                    None \<Rightarrow> sum0
                  | Some d \<Rightarrow> if d \<noteq> 0 then sum0 + (if reverseSep then d else - d) else sum0);
          sum2 = sum1 + (if truthy (dummy vLabel) then edgeSep else nodeSep) / 2;
          sum3 = sum2 + (if truthy (dummy wLabel) then edgeSep else nodeSep) / 2;
          sum4 = sum3 + width wLabel / 2;
          delta2 = (case labelpos wLabel of
                      None \<Rightarrow> 0
                    | Some lp \<Rightarrow>
                        if toLowerCase lp = ''l'' then width wLabel / 2
                        else if toLowerCase lp = ''r'' then - width wLabel / 2
                        else 0)
      in if delta2 \<noteq> 0 then sum4 + (if reverseSep then delta2 else - delta2) else sum4)"

text \<open>Scenario S5: two real nodes of width 100 on one rank, \<open>a.labelpos = 'l'\<close>.\<close>

definition s5_label :: "vertex \<Rightarrow> label" where
  "s5_label v =
     \<lparr>rank = Some 0, order = (if v = ''a'' then 0 else 1), width = 100, dummy = Undefined,
      labelpos = (if v = ''a'' then Some ''l'' else None), borderType = None\<rparr>"

definition s5_graph :: graph where
  "s5_graph =
     \<lparr>nodes = [''a'', ''b''], node = s5_label, predecessors = (\<lambda>v. []),
      successors = (\<lambda>v. []),
      graph_label = \<lparr>nodesep = 40, edgesep = 10, graphAlign = None\<rparr>\<rparr>"

subsection \<open>Type-1 conflicts: \<open>findOtherInnerSegmentNode\<close>, \<open>findType1Conflicts\<close>\<close>

text \<open>A vertex id used as a condition (\<open>w ? ... : ...\<close>, \<open>if (u)\<close>): \<open>undefined\<close> and the
  empty string are falsy.\<close>

fun truthyId :: "vertex option \<Rightarrow> bool" where
  "truthyId None = False"
| "truthyId (Some w) = (w \<noteq> [])"

definition findOtherInnerSegmentNode :: "graph \<Rightarrow> vertex \<Rightarrow> vertex option" where
  "findOtherInnerSegmentNode g v =
     (if truthy (dummy (node g v))
      then find (\<lambda>u. truthy (dummy (node g u))) (predecessors g v)
      else None)"

text \<open>\<open>_.reduce(layering, visitLayer)\<close> with no initial accumulator: the first layer is
  the first \<open>prevLayer\<close>, and \<open>visitLayer\<close> returns its second argument; the conflict
  store the closure mutates is threaded through.\<close>

fun reduceLayers ::
  "(vertex list \<Rightarrow> vertex list \<Rightarrow> 'c \<Rightarrow> 'c) \<Rightarrow> vertex list list \<Rightarrow> 'c \<Rightarrow> 'c" where
  "reduceLayers f (prev # layer # rest) c = reduceLayers f (layer # rest) (f prev layer c)"
| "reduceLayers f [prev] c = c"
| "reduceLayers f [] c = c"

text \<open>The innermost loop of \<open>findType1Conflicts\<close>, over \<open>g.predecessors(scanNode)\<close>.\<close>

definition scanPredecessors1 :: "graph \<Rightarrow> nat \<Rightarrow> nat \<Rightarrow> vertex \<Rightarrow> conflicts \<Rightarrow> conflicts" where
  "scanPredecessors1 g k0 k1 scanNode c =
     fold (\<lambda>u c.
        let uLabel = node g u; uPos = order uLabel
        in if (uPos < k0 \<or> k1 < uPos) \<and>
              \<not> (truthy (dummy uLabel) \<and> truthy (dummy (node g scanNode)))
           then addConflict c u scanNode
           else c)
       (predecessors g scanNode) c"

text \<open>\<open>layer.slice(start, end)\<close>.\<close>

definition slice :: "'a list \<Rightarrow> nat \<Rightarrow> nat \<Rightarrow> 'a list" where
  "slice xs start end = drop start (take end xs)"

text \<open>The state of the loop over \<open>layer\<close>: \<open>(k0, scanPos, conflicts)\<close>.\<close>

definition visitLayer1 :: "graph \<Rightarrow> vertex list \<Rightarrow> vertex list \<Rightarrow> conflicts \<Rightarrow> conflicts" where
  "visitLayer1 g prevLayer layer c =
     (let prevLayerLength = length prevLayer;
          lastNode = (if layer = [] then None else Some (last layer))
      in snd (snd (fold (\<lambda>(i, v) (k0, scanPos, c).
           let w = findOtherInnerSegmentNode g v;
               k1 = (case w of
                       Some w' \<Rightarrow> if w' \<noteq> [] then order (node g w') else prevLayerLength
                     | None \<Rightarrow> prevLayerLength)
           in if truthyId w \<or> Some v = lastNode
              then (k1, i + 1, fold (scanPredecessors1 g k0 k1) (slice layer scanPos (i + 1)) c)
              else (k0, scanPos, c))
         (List.enumerate 0 layer) (0, 0, c))))"

definition findType1Conflicts :: "graph \<Rightarrow> vertex list list \<Rightarrow> conflicts" where
  "findType1Conflicts g layering = reduceLayers (visitLayer1 g) layering Map.empty"

subsection \<open>Type-2 conflicts: \<open>findType2Conflicts\<close>\<close>

text \<open>\<open>scan\<close>: \<open>prevNorthBorder\<close> may be \<open>undefined\<close> (\<open>None\<close>), and a comparison with
  \<open>undefined\<close> is false. \<open>_.range(southPos, southEnd)\<close> is only called with
  \<open>southPos \<le> southEnd \<le> south.length\<close>.\<close>

definition scanPredecessors2 ::
  "graph \<Rightarrow> int option \<Rightarrow> int \<Rightarrow> vertex \<Rightarrow> conflicts \<Rightarrow> conflicts" where
  "scanPredecessors2 g prevNorthBorder nextNorthBorder v c =
     fold (\<lambda>u c.
        let uNode = node g u
        in if truthy (dummy uNode) \<and>
              ((case prevNorthBorder of
                  None \<Rightarrow> False
                | Some p \<Rightarrow> int (order uNode) < p) \<or>
               int (order uNode) > nextNorthBorder)
           then addConflict c u v
           else c)
       (predecessors g v) c"

definition scan ::
  "graph \<Rightarrow> vertex list \<Rightarrow> nat \<Rightarrow> nat \<Rightarrow> int option \<Rightarrow> int \<Rightarrow> conflicts \<Rightarrow> conflicts" where
  "scan g south southPos southEnd prevNorthBorder nextNorthBorder c =
     fold (\<lambda>i c.
        let v = south ! i
        in if truthy (dummy (node g v))
           then scanPredecessors2 g prevNorthBorder nextNorthBorder v c
           else c)
       [southPos..<southEnd] c"

text \<open>The state of the loop over \<open>south\<close>:
  \<open>(prevNorthPos, nextNorthPos, southPos, conflicts)\<close>.\<close>

definition visitLayer2 :: "graph \<Rightarrow> vertex list \<Rightarrow> vertex list \<Rightarrow> conflicts \<Rightarrow> conflicts" where
  "visitLayer2 g north south c =
     snd (snd (snd (fold (\<lambda>(southLookahead, v) (prevNorthPos, nextNorthPos, southPos, c).
        let (prevNorthPos', nextNorthPos', southPos', c') =
              (if dummy (node g v) = JStr ''border'' \<and> predecessors g v \<noteq> []
               then let nextNorthPos1 = int (order (node g (hd (predecessors g v))))
                    in (nextNorthPos1, Some nextNorthPos1, southLookahead,
                        scan g south southPos southLookahead (Some prevNorthPos) nextNorthPos1 c)
               else (prevNorthPos, nextNorthPos, southPos, c))
        in (prevNorthPos', nextNorthPos', southPos',
            scan g south southPos' (length south) nextNorthPos' (int (length north)) c'))
      (List.enumerate 0 south) (- 1, None, 0, c))))"

definition findType2Conflicts :: "graph \<Rightarrow> vertex list list \<Rightarrow> conflicts" where
  "findType2Conflicts g layering = reduceLayers (visitLayer2 g) layering Map.empty"

text \<open>A two-layer graph with an inner segment \<open>b \<rightarrow> c\<close> (both ends dummies) crossed by the
  edge \<open>a \<rightarrow> d\<close> between real nodes.\<close>

definition x_label :: "vertex \<Rightarrow> label" where
  "x_label v =
     \<lparr>rank = Some (if v = ''a'' \<or> v = ''b'' then 0 else 1),
      order = (if v = ''a'' \<or> v = ''c'' then 0 else 1),
      width = 50,
      dummy = (if v = ''b'' \<or> v = ''c'' then JStr ''edge'' else Undefined),
      labelpos = None, borderType = None\<rparr>"

definition x_graph :: graph where
  "x_graph =
     \<lparr>nodes = [''a'', ''b'', ''c'', ''d''], node = x_label,
      predecessors = (\<lambda>v. if v = ''c'' then [''b''] else if v = ''d'' then [''a''] else []),
      successors = (\<lambda>v. if v = ''b'' then [''c''] else if v = ''a'' then [''d''] else []),
      graph_label = \<lparr>nodesep = 50, edgesep = 10, graphAlign = None\<rparr>\<rparr>"

definition x_layering :: "vertex list list" where
  "x_layering = [[''a'', ''b''], [''c'', ''d'']]"

text \<open>A three-layer graph with an edge \<open>u \<rightarrow> v\<close> between edge dummies that spans two ranks;
  every \<open>order\<close> is the position in the layer, and no \<open>dummy\<close> is \<open>"border"\<close>.\<close>

definition l_label :: "vertex \<Rightarrow> label" where
  "l_label v =
     \<lparr>rank = Some (if v = ''c'' then 1 else if v = ''v'' then 2 else 0),
      order = (if v = ''b'' then 1 else if v = ''u'' then 2 else 0),
      width = 50,
      dummy = (if v = ''u'' \<or> v = ''v'' then JStr ''edge'' else Undefined),
      labelpos = None, borderType = None\<rparr>"

definition l_graph :: graph where
  "l_graph =
     \<lparr>nodes = [''a'', ''b'', ''u'', ''c'', ''v''], node = l_label,
      predecessors = (\<lambda>v. if v = ''v'' then [''u''] else []),
      successors = (\<lambda>v. if v = ''u'' then [''v''] else []),
      graph_label = \<lparr>nodesep = 50, edgesep = 10, graphAlign = None\<rparr>\<rparr>"

definition l_layering :: "vertex list list" where
  "l_layering = [[''a'', ''b'', ''u''], [''c''], [''v'']]"

subsection \<open>Objects with enumerated keys\<close>

text \<open>An object whose keys the code enumerates: the association list of its properties in
  insertion order. JavaScript enumerates the own keys that are array indices first, in
  ascending numeric order, and then the other keys in insertion order.\<close>

type_synonym 'a obj = "(string \<times> 'a) list"

definition isDigit :: "char \<Rightarrow> bool" where
  "isDigit c = (c \<in> set ''0123456789'')"

definition digitValue :: "char \<Rightarrow> nat" where
  "digitValue c = of_char c - 48"

definition decimalValue :: "string \<Rightarrow> nat" where
  "decimalValue s = foldl (\<lambda>n c. 10 * n + digitValue c) 0 s"

definition isArrayIndex :: "string \<Rightarrow> bool" where
  "isArrayIndex s =
     (s \<noteq> [] \<and> list_all isDigit s \<and> (if hd s = CHR ''0'' then s = ''0'' else True) \<and>
      decimalValue s < 2 ^ 32 - 1)"

definition js_entries :: "'a obj \<Rightarrow> (string \<times> 'a) list" where
  "js_entries obj =
     sort_key (\<lambda>(k, x). decimalValue k) (filter (\<lambda>(k, x). isArrayIndex k) obj) @
     filter (\<lambda>(k, x). \<not> isArrayIndex k) obj"

definition js_keys :: "'a obj \<Rightarrow> string list" where
  "js_keys obj = map fst (js_entries obj)"

definition js_values :: "'a obj \<Rightarrow> 'a list" where
  "js_values obj = map snd (js_entries obj)"


subsection \<open>\<open>findSmallestWidthAlignment\<close>\<close>

text \<open>\<open>_.max\<close> and \<open>_.min\<close> of an array (\<open>undefined\<close> on the empty array), and
  \<open>_.minBy\<close>: the loop keeps the first element whose computed value is strictly below
  the values before it, and skips elements whose computed value is \<open>NaN\<close>.\<close>

fun jsMax :: "real list \<Rightarrow> real option" where
  "jsMax [] = None"
| "jsMax (x # xs) = Some (fold max xs x)"

fun jsMin :: "real list \<Rightarrow> real option" where
  "jsMin [] = None"
| "jsMin (x # xs) = Some (fold min xs x)"

definition minBy :: "('a \<Rightarrow> real option) \<Rightarrow> 'a list \<Rightarrow> 'a option" where
  "minBy iteratee array =
     map_option fst
       (fold (\<lambda>value res.
          case iteratee value of
            None \<Rightarrow> res
          | Some current \<Rightarrow>
              (case res of
                 None \<Rightarrow> Some (value, current)
               | Some (result, computed) \<Rightarrow>
                   if current < computed then Some (value, current) else res))
        array None)"

definition bk_width :: "graph \<Rightarrow> vertex \<Rightarrow> real" where
  "bk_width g v = width (node g v)"

definition alignmentWidth :: "graph \<Rightarrow> real obj \<Rightarrow> real option" where
  "alignmentWidth g xs =
     (let maxVals = map (\<lambda>(v, x). x + bk_width g v / 2) (js_entries xs);
          minVals = map (\<lambda>(v, x). x - bk_width g v / 2) (js_entries xs)
      in case (jsMax maxVals, jsMin minVals) of
           (Some mx, Some mn) \<Rightarrow> Some (mx - mn)
         | _ \<Rightarrow> None)"

definition findSmallestWidthAlignment :: "graph \<Rightarrow> real obj obj \<Rightarrow> real obj option" where
  "findSmallestWidthAlignment g xss = minBy (alignmentWidth g) (js_values xss)"

text \<open>Scenario S2: two nodes of width 50 on rank 0, \<open>nodesep = 50\<close>, no edges.\<close>

definition s2_label :: "vertex \<Rightarrow> label" where
  "s2_label v =
     \<lparr>rank = Some 0, order = (if v = ''a'' then 0 else 1), width = 50, dummy = Undefined,
      labelpos = None, borderType = None\<rparr>"

definition s2_graph :: graph where
  "s2_graph =
     \<lparr>nodes = [''a'', ''b''], node = s2_label, predecessors = (\<lambda>v. []),
      successors = (\<lambda>v. []),
      graph_label = \<lparr>nodesep = 50, edgesep = 10, graphAlign = None\<rparr>\<rparr>"

subsection \<open>\<open>verticalAlignment\<close>\<close>

text \<open>
  \<open>root\<close> and \<open>align\<close> are returned (and \<open>align\<close> is enumerated by
  \<open>horizontalCompaction\<close>), so both are objects; \<open>pos\<close> is local and only looked up.
  The first loop sets \<open>root[v] = v\<close>, \<open>align[v] = v\<close>, \<open>pos[v] = order\<close>.
\<close>

definition initVertex ::
  "nat \<times> vertex \<Rightarrow> vertex obj \<times> vertex obj \<times> (vertex \<rightharpoonup> nat) \<Rightarrow>
   vertex obj \<times> vertex obj \<times> (vertex \<rightharpoonup> nat)" where
  "initVertex = (\<lambda>(order, v) (root, align, pos).
     (AList.update v v root, AList.update v v align, pos(v \<mapsto> order)))"

definition initAlignment ::
  "vertex list list \<Rightarrow> vertex obj \<times> vertex obj \<times> (vertex \<rightharpoonup> nat)" where
  "initAlignment layering =
     fold (\<lambda>layer. fold initVertex (List.enumerate 0 layer)) layering ([], [], Map.empty)"

text \<open>
  The body of the \<open>for\<close> loop over the median neighbours. \<open>prevIdx < pos[w]\<close> is false
  when \<open>pos[w]\<close> is \<open>undefined\<close>. \<open>root\<close> and \<open>pos\<close> have the same keys, so
  \<open>root[w]\<close> is defined whenever \<open>pos[w]\<close> is; the model leaves the state unchanged in
  the (unreachable) other case.
\<close>

definition alignStep ::
  "conflicts \<Rightarrow> (vertex \<rightharpoonup> nat) \<Rightarrow> vertex \<Rightarrow> vertex \<Rightarrow>
   vertex obj \<times> vertex obj \<times> int \<Rightarrow> vertex obj \<times> vertex obj \<times> int" where
  "alignStep conflicts pos v w = (\<lambda>(root, align, prevIdx).
     case (pos w, map_of root w) of
       (Some p, Some r) \<Rightarrow>
         if map_of align v = Some v \<and> prevIdx < int p \<and> \<not> hasConflict conflicts v w
         then (AList.update v r root, AList.update v r (AList.update w v align), int p)
         else (root, align, prevIdx)
     | _ \<Rightarrow> (root, align, prevIdx))"

text \<open>\<open>_.sortBy(ws, w => pos[w])\<close>: a stable sort, \<open>undefined\<close> keys last.\<close>

definition sortByPos :: "(vertex \<rightharpoonup> nat) \<Rightarrow> vertex list \<Rightarrow> vertex list" where
  "sortByPos pos ws = sort_key (\<lambda>w. case pos w of None \<Rightarrow> \<infinity> | Some p \<Rightarrow> enat p) ws"

text \<open>The body of the loop over a layer: with \<open>mp = (ws.length - 1) / 2\<close>, the indices
  from \<open>floor(mp)\<close> to \<open>ceil(mp)\<close> are \<open>(n - 1) div 2\<close> and \<open>n div 2\<close>.\<close>

definition alignVertex ::
  "conflicts \<Rightarrow> (vertex \<Rightarrow> vertex list) \<Rightarrow> (vertex \<rightharpoonup> nat) \<Rightarrow> vertex \<Rightarrow>
   vertex obj \<times> vertex obj \<times> int \<Rightarrow> vertex obj \<times> vertex obj \<times> int" where
  "alignVertex conflicts neighborFn pos v s =
     (let ws = neighborFn v
      in if ws \<noteq> []
         then let ws' = sortByPos pos ws
              in fold (\<lambda>i. alignStep conflicts pos v (ws' ! i))
                   [(length ws' - 1) div 2 ..< length ws' div 2 + 1] s
         else s)"

definition alignLayer ::
  "conflicts \<Rightarrow> (vertex \<Rightarrow> vertex list) \<Rightarrow> (vertex \<rightharpoonup> nat) \<Rightarrow> vertex list \<Rightarrow>
   vertex obj \<times> vertex obj \<Rightarrow> vertex obj \<times> vertex obj" where
  "alignLayer conflicts neighborFn pos layer = (\<lambda>(root, align).
     case fold (alignVertex conflicts neighborFn pos) layer (root, align, - 1) of
       (root', align', prevIdx) \<Rightarrow> (root', align'))"

definition verticalAlignment ::
  "graph \<Rightarrow> vertex list list \<Rightarrow> conflicts \<Rightarrow> (vertex \<Rightarrow> vertex list) \<Rightarrow>
   vertex obj \<times> vertex obj" where
  "verticalAlignment g layering conflicts neighborFn =
     (\<lambda>(root, align, pos). fold (alignLayer conflicts neighborFn pos) layering (root, align))
       (initAlignment layering)"

text \<open>Following \<open>align\<close> from a vertex, and the members of a block in layering order.\<close>

definition alignNext :: "vertex obj \<Rightarrow> vertex \<Rightarrow> vertex" where
  "alignNext align u = (case map_of align u of Some a \<Rightarrow> a | None \<Rightarrow> u)"

definition alignOrbit :: "vertex obj \<Rightarrow> vertex \<Rightarrow> nat \<Rightarrow> vertex list" where
  "alignOrbit align v n = map (\<lambda>k. (alignNext align ^^ k) v) [0..<n]"

definition blockOf :: "vertex obj \<Rightarrow> vertex list list \<Rightarrow> vertex \<Rightarrow> vertex list" where
  "blockOf root layering v =
     filter (\<lambda>u. map_of root u = map_of root v) (concat layering)"
  for root

text \<open>
  The precondition of \<open>verticalAlignment\<close>: the (oriented) layering holds every vertex
  once, and \<open>neighborFn(v)\<close> returns vertices of the layer just before the layer of \<open>v\<close>
  (so a vertex of the first layer has no neighbour).
\<close>

definition properLayering :: "vertex list list \<Rightarrow> (vertex \<Rightarrow> vertex list) \<Rightarrow> bool" where
  "properLayering L neighborFn \<longleftrightarrow>
     distinct (concat L) \<and>
     (\<forall>i<length L. \<forall>v\<in>set (L ! i). \<forall>w\<in>set (neighborFn v). 0 < i \<and> w \<in> set (L ! (i - 1)))"

subsection \<open>The block graph: \<open>buildBlockGraph\<close>\<close>

text \<open>
  \<open>new Graph()\<close> of graphlib, as far as the code uses it: the nodes in insertion order,
  and the edges, keyed by their two ends, with their labels, in insertion order.
  \<open>setNode(v)\<close> adds a node once; \<open>setEdge(v, w, x)\<close> overwrites the label of an edge
  that exists, and otherwise adds the two nodes and the edge; \<open>nodes()\<close> enumerates the
  node object's keys; \<open>inEdges(v)\<close> and \<open>outEdges(v)\<close> list edge objects in insertion
  order; \<open>edge(v, w)\<close> and \<open>edge(e)\<close> read a label.
\<close>

record blockGraph =
  bnodes :: "vertex list"
  bedges :: "((vertex \<times> vertex) \<times> real) list"

definition emptyGraph :: blockGraph where
  "emptyGraph = \<lparr>bnodes = [], bedges = []\<rparr>"

definition setNode :: "blockGraph \<Rightarrow> vertex \<Rightarrow> blockGraph" where
  "setNode bg v = (if v \<in> set (bnodes bg) then bg else bg\<lparr>bnodes := bnodes bg @ [v]\<rparr>)"

definition edge :: "blockGraph \<Rightarrow> vertex \<times> vertex \<Rightarrow> real option" where
  "edge bg e = map_of (bedges bg) e"

definition setEdge :: "blockGraph \<Rightarrow> vertex \<Rightarrow> vertex \<Rightarrow> real \<Rightarrow> blockGraph" where
  "setEdge bg v w x =
     (if edge bg (v, w) \<noteq> None
      then bg\<lparr>bedges := AList.update (v, w) x (bedges bg)\<rparr>
      else (setNode (setNode bg v) w)\<lparr>bedges := bedges bg @ [((v, w), x)]\<rparr>)"

definition graphNodes :: "blockGraph \<Rightarrow> vertex list" where
  "graphNodes bg = js_keys (map (\<lambda>v. (v, ())) (bnodes bg))"

definition inEdges :: "blockGraph \<Rightarrow> vertex \<Rightarrow> (vertex \<times> vertex) list" where
  "inEdges bg v = filter (\<lambda>e. snd e = v) (map fst (bedges bg))"

definition outEdges :: "blockGraph \<Rightarrow> vertex \<Rightarrow> (vertex \<times> vertex) list" where
  "outEdges bg v = filter (\<lambda>e. fst e = v) (map fst (bedges bg))"

text \<open>A loop whose body can fail: the first failure ends it.\<close>

fun foldOpt :: "('a \<Rightarrow> 's \<Rightarrow> 's option) \<Rightarrow> 'a list \<Rightarrow> 's \<Rightarrow> 's option" where
  "foldOpt f [] s = Some s"
| "foldOpt f (x # xs) s = (case f x s of None \<Rightarrow> None | Some s' \<Rightarrow> foldOpt f xs s')"

text \<open>
  The body of the inner loop of \<open>buildBlockGraph\<close>; the state is \<open>(u, blockGraph)\<close>, with
  \<open>u\<close> \<open>undefined\<close> at the start of a layer. \<open>if (u)\<close> is a truthiness test on a vertex
  id. \<open>prevMax || 0\<close> is \<open>0\<close> for a missing edge. A missing \<open>root[v]\<close> is a failure.
\<close>

definition blockStep ::
  "graph \<Rightarrow> (graph \<Rightarrow> vertex \<Rightarrow> vertex \<Rightarrow> real) \<Rightarrow> vertex obj \<Rightarrow> vertex \<Rightarrow>
   vertex option \<times> blockGraph \<Rightarrow> (vertex option \<times> blockGraph) option" where
  "blockStep g sepFn root v = (\<lambda>(u, blockGraph).
     case map_of root v of
       None \<Rightarrow> None
     | Some vRoot \<Rightarrow>
         let blockGraph1 = setNode blockGraph vRoot
         in if truthyId u
            then (case map_of root (the u) of
                    None \<Rightarrow> None
                  | Some uRoot \<Rightarrow>
                      let prevMax = edge blockGraph1 (uRoot, vRoot)
                      in Some (Some v,
                           setEdge blockGraph1 uRoot vRoot
                             (max (sepFn g v (the u))
                                  (case prevMax of None \<Rightarrow> 0 | Some m \<Rightarrow> m))))
            else Some (Some v, blockGraph1))"
  for root

definition buildBlockGraph ::
  "graph \<Rightarrow> vertex list list \<Rightarrow> vertex obj \<Rightarrow> bool \<Rightarrow> blockGraph option" where
  "buildBlockGraph g layering root reverseSep =
     (let graphLabel = graph_label g;
          sepFn = sep (nodesep graphLabel) (edgesep graphLabel) reverseSep
      in foldOpt (\<lambda>layer blockGraph.
            map_option snd (foldOpt (blockStep g sepFn root) layer (None, blockGraph)))
          layering emptyGraph)"
  for root

subsection \<open>\<open>horizontalCompaction\<close>\<close>

text \<open>
  The two sweeps are recursive closures over the mutable \<open>visited\<close> and \<open>xs\<close>; the model
  threads the pair \<open>(visited, xs)\<close> and bounds the depth of the recursion by a counter (a
  call at depth 0 gives \<open>None\<close>). \<open>visited[v] = true\<close> is stored as \<open>1\<close>, the value
  \<open>visited[v]++\<close> reads it as. Reading a missing \<open>xs[e.v]\<close> (which makes the source
  compute \<open>NaN\<close>) is a failure. \<open>Number.POSITIVE_INFINITY\<close> is \<open>None\<close> in the second
  sweep's minimum.
\<close>

type_synonym sweep = "(vertex \<rightharpoonup> nat) \<times> real obj"

text \<open>The callback of \<open>_.reduce(blockG.inEdges(v), ...)\<close>; \<open>rec\<close> is the recursive call
  \<open>pass1\<close>.\<close>

definition pass1Edge ::
  "(vertex \<Rightarrow> sweep \<Rightarrow> sweep option) \<Rightarrow> blockGraph \<Rightarrow> vertex \<times> vertex \<Rightarrow>
   real \<times> sweep \<Rightarrow> (real \<times> sweep) option" where
  "pass1Edge rec blockG e = (\<lambda>(mx, st).
     case rec (fst e) st of
       None \<Rightarrow> None
     | Some st' \<Rightarrow>
         (case (map_of (snd st') (fst e), edge blockG e) of
            (Some x, Some weight) \<Rightarrow> Some (max mx (x + weight), st')
          | _ \<Rightarrow> None))"

primrec pass1 :: "nat \<Rightarrow> blockGraph \<Rightarrow> vertex \<Rightarrow> sweep \<Rightarrow> sweep option" where
  "pass1 0 blockG v st = None"
| "pass1 (Suc n) blockG v st =
     (if v \<in> dom (fst st) then Some st
      else case foldOpt (pass1Edge (pass1 n blockG) blockG) (inEdges blockG v)
                  (0, ((fst st)(v \<mapsto> 1), snd st)) of
             None \<Rightarrow> None
           | Some (mx, st') \<Rightarrow> Some (fst st', AList.update v mx (snd st')))"

text \<open>The callback of \<open>_.reduce(blockG.outEdges(v), ...)\<close>; \<open>rec\<close> is the recursive call
  \<open>pass2\<close>, and the minimum \<open>None\<close> is \<open>Number.POSITIVE_INFINITY\<close>.\<close>

definition pass2Edge ::
  "(vertex \<Rightarrow> sweep \<Rightarrow> sweep option) \<Rightarrow> blockGraph \<Rightarrow> vertex \<times> vertex \<Rightarrow>
   real option \<times> sweep \<Rightarrow> (real option \<times> sweep) option" where
  "pass2Edge rec blockG e = (\<lambda>(mn, st).
     case rec (snd e) st of
       None \<Rightarrow> None
     | Some st' \<Rightarrow>
         (case (map_of (snd st') (snd e), edge blockG e) of
            (Some x, Some weight) \<Rightarrow>
              Some (Some (case mn of None \<Rightarrow> x - weight | Some m \<Rightarrow> min m (x - weight)), st')
          | _ \<Rightarrow> None))"

primrec pass2 ::
  "nat \<Rightarrow> graph \<Rightarrow> blockGraph \<Rightarrow> string \<Rightarrow> vertex \<Rightarrow> sweep \<Rightarrow> sweep option" where
  "pass2 0 g blockG bType v st = None"
| "pass2 (Suc n) g blockG bType v st =
     (case fst st v of
        None \<Rightarrow> None
      | Some c \<Rightarrow>
          if c \<noteq> 2
          then case foldOpt (pass2Edge (pass2 n g blockG bType) blockG) (outEdges blockG v)
                      (None, ((fst st)(v \<mapsto> c + 1), snd st)) of
                 None \<Rightarrow> None
               | Some (None, st') \<Rightarrow> Some st'
               | Some (Some m, st') \<Rightarrow>
                   if borderType (node g v) \<noteq> Some bType
                   then (case map_of (snd st') v of
                           None \<Rightarrow> None
                         | Some x \<Rightarrow> Some (fst st', AList.update v (max x m) (snd st')))
                   else Some st'
          else Some st)"

text \<open>The last loop: \<open>xs[v] = xs[root[v]]\<close> for every value \<open>v\<close> of \<open>align\<close>.\<close>

definition assignRoot :: "vertex obj \<Rightarrow> vertex \<Rightarrow> real obj \<Rightarrow> real obj option" where
  "assignRoot root v xs =
     (case map_of root v of
        None \<Rightarrow> None
      | Some r \<Rightarrow> (case map_of xs r of None \<Rightarrow> None | Some x \<Rightarrow> Some (AList.update v x xs)))"
  for root

definition horizontalCompaction ::
  "graph \<Rightarrow> vertex list list \<Rightarrow> vertex obj \<Rightarrow> vertex obj \<Rightarrow> bool \<Rightarrow> real obj option" where
  "horizontalCompaction g layering root align reverseSep =
     (case buildBlockGraph g layering root reverseSep of
        None \<Rightarrow> None
      | Some blockG \<Rightarrow>
          let depth = Suc (length (bnodes blockG))
          in case foldOpt (pass1 depth blockG) (graphNodes blockG) (Map.empty, []) of
               None \<Rightarrow> None
             | Some st1 \<Rightarrow>
                 let bType = (if reverseSep then ''borderLeft'' else ''borderRight'')
                 in case foldOpt (pass2 depth g blockG bType) (graphNodes blockG) st1 of
                      None \<Rightarrow> None
                    | Some st2 \<Rightarrow> foldOpt (assignRoot root) (js_values align) (snd st2))"
  for root

subsection \<open>A vertex whose id is the empty string\<close>

text \<open>Two nodes of width 50 on rank 0 as in S2, the left one with the id \<open>""\<close>.\<close>

definition e_label :: "vertex \<Rightarrow> label" where
  "e_label v =
     \<lparr>rank = Some 0, order = (if v = [] then 0 else 1), width = 50, dummy = Undefined,
      labelpos = None, borderType = None\<rparr>"

definition e_graph :: graph where
  "e_graph =
     \<lparr>nodes = [[], ''b''], node = e_label, predecessors = (\<lambda>v. []),
      successors = (\<lambda>v. []),
      graph_label = \<lparr>nodesep = 50, edgesep = 10, graphAlign = None\<rparr>\<rparr>"

subsection \<open>\<open>alignCoordinates\<close>, \<open>balance\<close> and \<open>positionX\<close>\<close>

text \<open>\<open>_.mapValues\<close> builds a new object, visiting the properties in enumeration order.\<close>

definition mapValues :: "('a \<Rightarrow> 'b) \<Rightarrow> 'a obj \<Rightarrow> 'b obj" where
  "mapValues f obj = map (\<lambda>(k, x). (k, f x)) (js_entries obj)"

text \<open>A difference of two values that may be \<open>undefined\<close>: \<open>NaN\<close> (here \<open>None\<close>) unless
  both are numbers.\<close>

fun jsSub :: "real option \<Rightarrow> real option \<Rightarrow> real option" where
  "jsSub (Some a) (Some b) = Some (a - b)"
| "jsSub a b = None"

text \<open>
  The body of the two nested loops of \<open>alignCoordinates\<close>.  \<open>alignTo\<close> is \<open>None\<close> when
  \<open>findSmallestWidthAlignment\<close> returned \<open>undefined\<close>.  The test \<open>xs === alignTo\<close> compares
  references; the model compares contents: for an \<open>xs\<close> with the contents of \<open>alignTo\<close>
  that is another object, \<open>delta\<close> is \<open>0\<close> or \<open>NaN\<close>, both falsy, and \<open>xss\<close> is left as it
  is as well.
\<close>

definition alignCoordinate ::
  "real obj option \<Rightarrow> string \<Rightarrow> string \<Rightarrow> real obj obj \<Rightarrow> real obj obj" where
  "alignCoordinate alignTo vert horiz xss =
     (let vals = (case alignTo of None \<Rightarrow> [] | Some a \<Rightarrow> js_values a);
          alignToMin = jsMin vals;
          alignToMax = jsMax vals;
          alignment = vert @ horiz
      in case map_of xss alignment of
           None \<Rightarrow> xss
         | Some xs \<Rightarrow>
             if Some xs = alignTo then xss
             else
               let xsVals = js_values xs;
                   delta = (if horiz = ''l'' then jsSub alignToMin (jsMin xsVals)
                            else jsSub alignToMax (jsMax xsVals))
               in case delta of
                    None \<Rightarrow> xss
                  | Some d \<Rightarrow>
                      if d \<noteq> 0 then AList.update alignment (mapValues (\<lambda>x. x + d) xs) xss
                      else xss)"

definition alignCoordinates :: "real obj obj \<Rightarrow> real obj option \<Rightarrow> real obj obj" where
  "alignCoordinates xss alignTo =
     fold (\<lambda>vert. fold (\<lambda>horiz. alignCoordinate alignTo vert horiz) [''l'', ''r''])
       [''u'', ''d''] xss"

text \<open>
  \<open>_.sortBy\<close> without an iteratee is a stable sort in ascending order that puts \<open>undefined\<close>
  after every number.
\<close>

fun jsLeq :: "real option \<Rightarrow> real option \<Rightarrow> bool" where
  "jsLeq a None = True"
| "jsLeq None (Some b) = False"
| "jsLeq (Some a) (Some b) = (a \<le> b)"

fun jsInsert :: "real option \<Rightarrow> real option list \<Rightarrow> real option list" where
  "jsInsert x [] = [x]"
| "jsInsert x (y # ys) = (if jsLeq x y then x # y # ys else y # jsInsert x ys)"

definition sortBy :: "real option list \<Rightarrow> real option list" where
  "sortBy xs = foldr jsInsert xs []"

text \<open>\<open>xs[i]\<close> of an array, \<open>undefined\<close> past its end.\<close>

definition jsNth :: "real option list \<Rightarrow> nat \<Rightarrow> real option" where
  "jsNth xs i = (if i < length xs then xs ! i else None)"

text \<open>What \<open>balance\<close> can throw, and the failure of a compaction in the sense of the
  introduction.\<close>

datatype failure = TypeError | NotANumber

text \<open>
  The callback of \<open>_.mapValues(xss.ul, ...)\<close> in \<open>balance\<close>.  \<open>align\<close> is \<open>None\<close> for
  \<open>undefined\<close>; a string is truthy iff it is not empty.  \<open>xss[align.toLowerCase()]\<close> of a
  missing key is \<open>undefined\<close>, and reading \<open>[v]\<close> of it throws (keys that \<open>xss\<close>
  inherits from \<open>Object.prototype\<close>, such as \<open>constructor\<close>, are not part of the model).  A coordinate is \<open>None\<close> when
  it is \<open>undefined\<close> or \<open>NaN\<close>.  \<open>_.map(xss, v)\<close> reads the property \<open>v\<close> of every alignment,
  in the enumeration order of \<open>xss\<close>.
\<close>

definition balanceValue :: "real obj obj \<Rightarrow> string option \<Rightarrow> vertex \<Rightarrow> failure + real option" where
  "balanceValue xss align v =
     (if (case align of None \<Rightarrow> False | Some a \<Rightarrow> a \<noteq> []) then
        (case map_of xss (toLowerCase (the align)) of
           None \<Rightarrow> Inl TypeError
         | Some sel \<Rightarrow> Inr (map_of sel v))
      else
        (let xs = sortBy (map (\<lambda>a. map_of a v) (js_values xss))
         in Inr (case (jsNth xs 1, jsNth xs 2) of
                   (Some x1, Some x2) \<Rightarrow> Some ((x1 + x2) / 2)
                 | _ \<Rightarrow> None)))"

fun mapValuesE :: "(vertex \<Rightarrow> failure + 'b) \<Rightarrow> vertex list \<Rightarrow> failure + 'b obj" where
  "mapValuesE f [] = Inr []"
| "mapValuesE f (v # vs) =
     (case f v of
        Inl e \<Rightarrow> Inl e
      | Inr y \<Rightarrow> (case mapValuesE f vs of Inl e \<Rightarrow> Inl e | Inr ys \<Rightarrow> Inr ((v, y) # ys)))"

definition balance :: "real obj obj \<Rightarrow> string option \<Rightarrow> failure + real option obj" where
  "balance xss align =
     (case map_of xss ''ul'' of
        None \<Rightarrow> Inr []
      | Some ul \<Rightarrow> mapValuesE (balanceValue xss align) (js_keys ul))"

text \<open>
  Modelled from the spec: \<open>buildLayerMatrix\<close> of \<^verbatim>\<open>../util\<close> is not among the sources.
  The spec has \<open>positionX\<close> build the layering from the ranks and \<open>G.order\<close>:
  \<open>L[r][i]\<close> is the vertex at layer \<open>r\<close>, position \<open>i\<close>, with
  \<open>G.node(L[r][i]).order == i\<close>.  So layer \<open>r\<close> holds the nodes of rank \<open>r\<close> in the order
  of their \<open>order\<close>, for the ranks from 0 to the largest one.
\<close>

definition buildLayerMatrix :: "graph \<Rightarrow> vertex list list" where
  "buildLayerMatrix g =
     (let ranks = concat (map (\<lambda>v. case rank (node g v) of None \<Rightarrow> [] | Some r \<Rightarrow> [r])
                            (nodes g))
      in if ranks = [] then []
         else map (\<lambda>r. sort_key (\<lambda>v. order (node g v))
                         (filter (\<lambda>v. rank (node g v) = Some r) (nodes g)))
                [0..<Suc (fold max ranks 0)])"

text \<open>\<open>_.merge\<close> of the two conflict stores: the stores of a vertex present in both are
  merged key by key.\<close>

definition mergeConflicts :: "conflicts \<Rightarrow> conflicts \<Rightarrow> conflicts" where
  "mergeConflicts c1 c2 =
     (\<lambda>v. case (c1 v, c2 v) of
             (Some m1, Some m2) \<Rightarrow> Some (m1 ++ m2)
           | (Some m1, None) \<Rightarrow> Some m1
           | (None, r) \<Rightarrow> r)"

text \<open>
  The body of the two nested loops of \<open>positionX\<close> for one \<open>vert\<close> and one \<open>horiz\<close>.  The
  inner loop runs \<open>l\<close> before \<open>r\<close>, so the layers are reversed for \<open>r\<close> only, from the
  layering chosen for \<open>vert\<close>.
\<close>

definition alignment ::
  "graph \<Rightarrow> vertex list list \<Rightarrow> conflicts \<Rightarrow> string \<Rightarrow> string \<Rightarrow> failure + real obj" where
  "alignment g layering conflicts vert horiz =
     (let adjustedLayering0 = (if vert = ''u'' then layering else rev layering);
          adjustedLayering = (if horiz = ''r'' then map rev adjustedLayering0
                              else adjustedLayering0);
          neighborFn = (if vert = ''u'' then predecessors g else successors g);
          align = verticalAlignment g adjustedLayering conflicts neighborFn
      in case horizontalCompaction g adjustedLayering (fst align) (snd align)
                (horiz = ''r'') of
           None \<Rightarrow> Inl NotANumber
         | Some xs \<Rightarrow> Inr (if horiz = ''r'' then mapValues (\<lambda>x. - x) xs else xs))"

text \<open>The four alignments, stored under \<open>ul\<close>, \<open>ur\<close>, \<open>dl\<close>, \<open>dr\<close> in this order.\<close>

definition alignments :: "graph \<Rightarrow> failure + real obj obj" where
  "alignments g =
     (let layering = buildLayerMatrix g;
          conflicts = mergeConflicts (findType1Conflicts g layering)
                        (findType2Conflicts g layering)
      in case alignment g layering conflicts ''u'' ''l'' of Inl e \<Rightarrow> Inl e | Inr ul \<Rightarrow>
         case alignment g layering conflicts ''u'' ''r'' of Inl e \<Rightarrow> Inl e | Inr ur \<Rightarrow>
         case alignment g layering conflicts ''d'' ''l'' of Inl e \<Rightarrow> Inl e | Inr dl \<Rightarrow>
         case alignment g layering conflicts ''d'' ''r'' of Inl e \<Rightarrow> Inl e | Inr dr \<Rightarrow>
           Inr [(''ul'', ul), (''ur'', ur), (''dl'', dl), (''dr'', dr)])"

definition positionX :: "graph \<Rightarrow> failure + real option obj" where
  "positionX g =
     (case alignments g of
        Inl e \<Rightarrow> Inl e
      | Inr xss \<Rightarrow>
          let smallestWidth = findSmallestWidthAlignment g xss
          in balance (alignCoordinates xss smallestWidth) (graphAlign (graph_label g)))"

text \<open>S2 with the graph attribute \<open>align\<close> set to \<open>"UR"\<close>, and to \<open>"X"\<close>, which names none
  of the four alignments.\<close>

definition s2_graph_aligned :: "string \<Rightarrow> graph" where
  "s2_graph_aligned a =
     s2_graph\<lparr>graph_label := \<lparr>nodesep = 50, edgesep = 10, graphAlign = Some a\<rparr>\<rparr>"

text \<open>The four alignments as \<open>positionX\<close> passes them to \<open>balance\<close>, after
  \<open>alignCoordinates\<close>.\<close>

definition aligned :: "graph \<Rightarrow> failure + real obj obj" where
  "aligned g =
     (case alignments g of
        Inl e \<Rightarrow> Inl e
      | Inr xss \<Rightarrow> Inr (alignCoordinates xss (findSmallestWidthAlignment g xss)))"

section \<open>Properties\<close>

subsection \<open>Loops\<close>

lemma fold_inv:
  assumes "P s" and "\<And>x s. P s \<Longrightarrow> P (f x s)"
  shows "P (fold f xs s)"
  using assms(1) by (induction xs arbitrary: s) (simp_all add: assms(2))

lemma fold_id:
  assumes "\<And>x. x \<in> set xs \<Longrightarrow> f x = id"
  shows "fold f xs = id"
  using assms by (induction xs) simp_all

lemma reduceLayers_inv:
  assumes "P c" and "\<And>prev layer c. P c \<Longrightarrow> P (f prev layer c)"
  shows "P (reduceLayers f layering c)"
  using assms
  by (induction f layering c rule: reduceLayers.induct) simp_all

subsection \<open>Conflict store\<close>

text \<open>The ordered pair both \<open>addConflict\<close> and \<open>hasConflict\<close> compute first.\<close>

definition canon :: "vertex \<Rightarrow> vertex \<Rightarrow> vertex \<times> vertex" where
  "canon v w = (if v > w then (w, v) else (v, w))"

lemma canon_sym: "canon v w = canon w v"
  unfolding canon_def by (cases v w rule: linorder_cases) auto

lemma canon_eq_iff: "canon v w = canon a b \<longleftrightarrow> (v = a \<and> w = b) \<or> (v = b \<and> w = a)"
  unfolding canon_def by (auto split: if_splits)

lemma hasConflict_canon:
  "hasConflict c v w =
     (case c (fst (canon v w)) of None \<Rightarrow> False | Some m \<Rightarrow> snd (canon v w) \<in> dom m)"
  unfolding hasConflict_def canon_def by (simp split: if_splits cong: option.case_cong)

lemma addConflict_canon:
  "addConflict c v w =
     c(fst (canon v w) \<mapsto>
       (case c (fst (canon v w)) of None \<Rightarrow> Map.empty | Some m \<Rightarrow> m)(snd (canon v w) \<mapsto> True))"
  unfolding addConflict_def canon_def by (simp split: if_splits cong: option.case_cong)

lemma hasConflict_sym: "hasConflict c v w = hasConflict c w v"
  unfolding hasConflict_canon canon_sym[of v w] ..

lemma hasConflict_empty [simp]: "\<not> hasConflict Map.empty v w"
  by (simp add: hasConflict_canon)

lemma hasConflict_addConflict:
  "hasConflict (addConflict c a b) v w \<longleftrightarrow>
     hasConflict c v w \<or> (v = a \<and> w = b) \<or> (v = b \<and> w = a)"
proof -
  obtain p q where pq: "canon v w = (p, q)" by (cases "canon v w")
  obtain r s where rs: "canon a b = (r, s)" by (cases "canon a b")
  have "(p, q) = (r, s) \<longleftrightarrow> (v = a \<and> w = b) \<or> (v = b \<and> w = a)"
    using canon_eq_iff[of v w a b] pq rs by simp
  then show ?thesis
    unfolding hasConflict_canon addConflict_canon pq rs
    by (auto split: option.splits)
qed

lemma hasConflict_foldl:
  "hasConflict (foldl (\<lambda>c (v, w). addConflict c v w) c ps) v w \<longleftrightarrow>
     hasConflict c v w \<or> (v, w) \<in> set ps \<or> (w, v) \<in> set ps"
proof (induction ps arbitrary: c)
  case Nil
  then show ?case by simp
next
  case (Cons p ps)
  obtain a b where p: "p = (a, b)" by (cases p)
  show ?case
    unfolding p by (simp add: Cons.IH hasConflict_addConflict) blast
qed

text \<open>
  C7. Lookup is symmetric, \<open>hasConflict(c, v, w) == hasConflict(c, w, v)\<close>, for every store
  \<open>c\<close>, in particular for every store built by a sequence of \<open>addConflict\<close> calls: both
  insert and lookup first order the pair, so a built store answers for exactly the inserted
  pairs, in either order.
\<close>

theorem hasConflict_symmetric:
  "hasConflict c v w = hasConflict c w v \<and>
   hasConflict (addConflicts ps) v w = hasConflict (addConflicts ps) w v \<and>
   (hasConflict (addConflicts ps) v w \<longleftrightarrow> (v, w) \<in> set ps \<or> (w, v) \<in> set ps)"
proof -
  have "hasConflict (addConflicts ps) v w \<longleftrightarrow> (v, w) \<in> set ps \<or> (w, v) \<in> set ps"
    unfolding addConflicts_def by (simp add: hasConflict_foldl)
  then show ?thesis
    using hasConflict_sym[of c v w] hasConflict_sym[of "addConflicts ps" v w] by blast
qed

subsection \<open>Type-1 conflicts never mark an inner segment\<close>

text \<open>\<open>stored c a b\<close>: the store holds \<open>c[a][b]\<close>.\<close>

definition stored :: "conflicts \<Rightarrow> vertex \<Rightarrow> vertex \<Rightarrow> bool" where
  "stored c a b = (case c a of None \<Rightarrow> False | Some m \<Rightarrow> b \<in> dom m)"

lemma hasConflict_stored: "hasConflict c v w = stored c (fst (canon v w)) (snd (canon v w))"
  by (simp add: hasConflict_canon stored_def)

lemma stored_addConflict:
  "stored (addConflict c u s) a b \<longleftrightarrow> stored c a b \<or> (a, b) = canon u s"
proof -
  obtain r t where rt: "canon u s = (r, t)" by (cases "canon u s")
  show ?thesis
    unfolding stored_def addConflict_canon rt by (auto split: option.splits)
qed

lemma canon_cases: "canon u s = (u, s) \<or> canon u s = (s, u)"
  by (simp add: canon_def)

definition noInnerConflict :: "graph \<Rightarrow> conflicts \<Rightarrow> bool" where
  "noInnerConflict g c \<longleftrightarrow>
     (\<forall>a b. stored c a b \<longrightarrow> \<not> (truthy (dummy (node g a)) \<and> truthy (dummy (node g b))))"

lemma noInnerConflict_addConflict:
  assumes "noInnerConflict g c" and "\<not> (truthy (dummy (node g u)) \<and> truthy (dummy (node g s)))"
  shows "noInnerConflict g (addConflict c u s)"
  using assms canon_cases[of u s]
  unfolding noInnerConflict_def stored_addConflict by auto

lemma noInnerConflict_scanPredecessors1:
  "noInnerConflict g c \<Longrightarrow> noInnerConflict g (scanPredecessors1 g k0 k1 scanNode c)"
  unfolding scanPredecessors1_def
  by (rule fold_inv[where P = "noInnerConflict g"])
     (simp_all add: Let_def noInnerConflict_addConflict)

lemma noInnerConflict_visitLayer1:
  assumes "noInnerConflict g c"
  shows "noInnerConflict g (visitLayer1 g prevLayer layer c)"
proof -
  have step: "noInnerConflict g (fold (scanPredecessors1 g k0 k1) xs d)"
    if "noInnerConflict g d" for k0 k1 xs d
    using that
    by (rule fold_inv[where P = "noInnerConflict g"]) (rule noInnerConflict_scanPredecessors1)
  show ?thesis
    unfolding visitLayer1_def Let_def
    by (rule fold_inv[where P = "\<lambda>s. noInnerConflict g (snd (snd s))"])
       (auto simp: assms step split: prod.splits)
qed

lemma noInnerConflict_findType1Conflicts: "noInnerConflict g (findType1Conflicts g layering)"
  unfolding findType1Conflicts_def
proof (rule reduceLayers_inv[where P = "noInnerConflict g"])
  show "noInnerConflict g Map.empty"
    by (simp add: noInnerConflict_def stored_def)
qed (rule noInnerConflict_visitLayer1)

text \<open>
  C6. For every graph and layering, the store returned by \<open>findType1Conflicts\<close> holds no
  pair whose two endpoints both have a truthy \<open>dummy\<close> attribute, and \<open>hasConflict\<close>
  answers false for every such pair: an inner segment is never marked.
\<close>

theorem findType1Conflicts_no_inner_segment:
  assumes "truthy (dummy (node g v))" and "truthy (dummy (node g w))"
  shows "\<not> stored (findType1Conflicts g layering) v w \<and>
         \<not> hasConflict (findType1Conflicts g layering) v w"
proof -
  have "noInnerConflict g (findType1Conflicts g layering)"
    by (rule noInnerConflict_findType1Conflicts)
  with assms canon_cases[of v w] show ?thesis
    unfolding noInnerConflict_def hasConflict_stored by auto
qed

lemma x_graph_type1: "findType1Conflicts x_graph x_layering = addConflict Map.empty ''a'' ''d''"
  by (simp add: findType1Conflicts_def x_layering_def visitLayer1_def enumerate_eq_zip
      findOtherInnerSegmentNode_def scanPredecessors1_def slice_def x_graph_def x_label_def)

text \<open>In the crossing example the edge \<open>a \<rightarrow> d\<close> is marked, the inner segment
  \<open>b \<rightarrow> c\<close> is not.\<close>

theorem findType1Conflicts_no_inner_segment_witness:
  "truthy (dummy (node x_graph ''b'')) \<and> truthy (dummy (node x_graph ''c'')) \<and>
   hasConflict (findType1Conflicts x_graph x_layering) ''a'' ''d'' \<and>
   \<not> stored (findType1Conflicts x_graph x_layering) ''b'' ''c'' \<and>
   \<not> hasConflict (findType1Conflicts x_graph x_layering) ''b'' ''c''"
proof -
  have b: "truthy (dummy (node x_graph ''b''))" and c: "truthy (dummy (node x_graph ''c''))"
    by (simp_all add: x_graph_def x_label_def)
  have "hasConflict (findType1Conflicts x_graph x_layering) ''a'' ''d''"
    by (simp add: x_graph_type1 hasConflict_addConflict)
  with findType1Conflicts_no_inner_segment[OF b c, of x_layering] b c show ?thesis
    by simp
qed

subsection \<open>Type-2 conflicts without border dummies\<close>

lemma scanPredecessors2_no_conflict:
  assumes "\<And>u. u \<in> set (predecessors g v) \<Longrightarrow> order (node g u) \<le> n"
  shows "scanPredecessors2 g None (int n) v c = c"
proof -
  have "fold (\<lambda>u c. let uNode = node g u
                 in if truthy (dummy uNode) \<and>
                       ((case None of None \<Rightarrow> False | Some p \<Rightarrow> int (order uNode) < p) \<or>
                        int (order uNode) > int n)
                    then addConflict c u v else c) (predecessors g v) = id"
  proof (intro fold_id)
    fix u assume "u \<in> set (predecessors g v)"
    then have "\<not> n < order (node g u)"
      using assms[of u] by simp
    then show "(\<lambda>c. let uNode = node g u
                 in if truthy (dummy uNode) \<and>
                       ((case None of None \<Rightarrow> False | Some p \<Rightarrow> int (order uNode) < p) \<or>
                        int (order uNode) > int n)
                    then addConflict c u v else c) = id"
      by (simp add: Let_def fun_eq_iff)
  qed
  then show ?thesis
    unfolding scanPredecessors2_def by simp
qed

lemma scan_no_conflict:
  assumes "southEnd \<le> length south"
    and "\<And>v u. v \<in> set south \<Longrightarrow> u \<in> set (predecessors g v) \<Longrightarrow>
           order (node g u) \<le> n"
  shows "scan g south southPos southEnd None (int n) c = c"
proof -
  have "fold (\<lambda>i c. let v = south ! i
        in if truthy (dummy (node g v))
           then scanPredecessors2 g None (int n) v c
           else c) [southPos..<southEnd] = id"
  proof (intro fold_id)
    fix i assume "i \<in> set [southPos..<southEnd]"
    with assms(1) have "south ! i \<in> set south" by simp
    then have "scanPredecessors2 g None (int n) (south ! i) c = c" for c
      by (intro scanPredecessors2_no_conflict assms(2))
    then show "(\<lambda>c. let v = south ! i
        in if truthy (dummy (node g v))
           then scanPredecessors2 g None (int n) v c
           else c) = id"
      by (simp add: Let_def fun_eq_iff)
  qed
  then show ?thesis
    unfolding scan_def by simp
qed

lemma visitLayer2_no_border:
  assumes "\<And>v. v \<in> set south \<Longrightarrow> dummy (node g v) \<noteq> JStr ''border''"
    and "\<And>v u. v \<in> set south \<Longrightarrow> u \<in> set (predecessors g v) \<Longrightarrow>
           order (node g u) \<le> length north"
  shows "visitLayer2 g north south c = c"
proof -
  have "fold (\<lambda>(southLookahead, v) (prevNorthPos, nextNorthPos, southPos, c).
        let (prevNorthPos', nextNorthPos', southPos', c') =
              (if dummy (node g v) = JStr ''border'' \<and> predecessors g v \<noteq> []
               then let nextNorthPos1 = int (order (node g (hd (predecessors g v))))
                    in (nextNorthPos1, Some nextNorthPos1, southLookahead,
                        scan g south southPos southLookahead (Some prevNorthPos) nextNorthPos1 c)
               else (prevNorthPos, nextNorthPos, southPos, c))
        in (prevNorthPos', nextNorthPos', southPos',
            scan g south southPos' (length south) nextNorthPos' (int (length north)) c'))
      xs (- 1, None, 0, c) = (- 1, None, 0, c)"
    if "snd ` set xs \<subseteq> set south" for xs
    using that
  proof (induction xs)
    case Nil
    then show ?case by simp
  next
    case (Cons x xs)
    obtain i v where x: "x = (i, v)" by (cases x)
    from Cons.prems x have "v \<in> set south" by simp
    then have "dummy (node g v) \<noteq> JStr ''border''" by (rule assms(1))
    moreover have "scan g south 0 (length south) None (int (length north)) c = c"
      by (rule scan_no_conflict) (simp_all add: assms(2))
    ultimately show ?case
      using Cons by (simp add: x)
  qed
  moreover have "snd ` set (List.enumerate 0 south) \<subseteq> set south"
    by (auto simp: enumerate_eq_zip dest: set_zip_rightD)
  ultimately show ?thesis
    unfolding visitLayer2_def by simp
qed



lemma l_type2: "findType2Conflicts l_graph l_layering = addConflict Map.empty ''u'' ''v''"
  by (simp add: findType2Conflicts_def l_layering_def visitLayer2_def enumerate_eq_zip
      scan_def scanPredecessors2_def l_graph_def l_label_def)


subsection \<open>Separation\<close>

lemma toLowerCase_l: "toLowerCase ''l'' = ''l''"
  by (simp add: toLowerCase_def toLowerCaseChar_def)

text \<open>
  C2 (as the code computes it). In scenario S5 the left node \<open>a\<close> has \<open>labelpos = 'l'\<close>, so
  \<open>delta = a.width / 2 = 50\<close> and the code adds \<open>-delta\<close> without \<open>reverseSep\<close> and
  \<open>+delta\<close> with it: \<open>sep(G, b, a)\<close> is \<open>140 - 50 = 90\<close>, and \<open>140 + 50 = 190\<close> with
  \<open>reverseSep\<close>.
\<close>

theorem sep_s5_values:
  "sep 40 10 False s5_graph ''b'' ''a'' = 90 \<and> sep 40 10 True s5_graph ''b'' ''a'' = 190"
  by (simp add: sep_def s5_graph_def s5_label_def toLowerCase_l)

text \<open>C2 as stated (150 without \<open>reverseSep\<close>, 50 with it) does not hold of the code.\<close>

theorem sep_s5_not_150_50:
  "\<not> (sep 40 10 False s5_graph ''b'' ''a'' = 150 \<and> sep 40 10 True s5_graph ''b'' ''a'' = 50)"
  by (simp add: sep_def s5_graph_def s5_label_def toLowerCase_l)

subsection \<open>Enumeration order\<close>

lemma set_entries [simp]: "set (js_entries obj) = set obj"
  by (auto simp: js_entries_def)

lemma distinct_entries: "distinct obj \<Longrightarrow> distinct (js_entries obj)"
  by (auto simp: js_entries_def)

lemma distinct_keys: "distinct (map fst obj) \<Longrightarrow> distinct (js_keys obj)"
  by (simp add: js_keys_def distinct_map distinct_entries)

lemma map_of_entries: "distinct (map fst obj) \<Longrightarrow> map_of (js_entries obj) = map_of obj"
  using distinct_keys[of obj] by (intro map_of_inject_set[THEN iffD2]) (simp_all add: js_keys_def)


lemma not_isArrayIndex: "\<not> isDigit c \<Longrightarrow> \<not> isArrayIndex (c # s)"
  by (simp add: isArrayIndex_def)

lemma not_isArrayIndex_letters [simp]:
  "\<not> isArrayIndex (CHR ''a'' # s)" "\<not> isArrayIndex (CHR ''b'' # s)"
  "\<not> isArrayIndex (CHR ''c'' # s)" "\<not> isArrayIndex (CHR ''d'' # s)"
  "\<not> isArrayIndex (CHR ''u'' # s)"
  by (rule not_isArrayIndex, simp add: isDigit_def)+

lemma js_values_four:
  "js_values [(''ul'', ul), (''ur'', ur), (''dl'', dl), (''dr'', dr)] = [ul, ur, dl, dr]"
  by (simp add: js_values_def js_entries_def)

subsection \<open>The narrowest alignment\<close>

lemma jsMax_Max: "xs \<noteq> [] \<Longrightarrow> jsMax xs = Some (Max (set xs))"
  using Max.set_eq_fold[of "hd xs" "tl xs"] by (cases xs) simp_all

lemma jsMin_Min: "xs \<noteq> [] \<Longrightarrow> jsMin xs = Some (Min (set xs))"
  using Min.set_eq_fold[of "hd xs" "tl xs"] by (cases xs) simp_all

lemma alignmentWidth_eq:
  assumes "xs \<noteq> []"
  shows "alignmentWidth g xs =
    Some (Max ((\<lambda>(v, x). x + width (node g v) / 2) ` set xs) -
          Min ((\<lambda>(v, x). x - width (node g v) / 2) ` set xs))"
proof -
  from assms have "set (js_entries xs) \<noteq> {}" by simp
  then have "js_entries xs \<noteq> []" by (simp del: set_entries)
  then show ?thesis
    by (simp add: alignmentWidth_def jsMax_Max jsMin_Min bk_width_def)
qed

text \<open>The loop of \<open>_.minBy\<close>: the result is the first element that attains the least
  computed value.\<close>

lemma minBy_fold:
  fixes f :: "'a \<Rightarrow> real option"
  assumes "\<And>x. x \<in> set ys \<Longrightarrow> f x \<noteq> None"
    and "res = None \<or> (\<exists>i<length xs. res = Some (xs ! i, the (f (xs ! i))) \<and>
          (\<forall>j<length xs. the (f (xs ! i)) \<le> the (f (xs ! j))) \<and>
          (\<forall>j<i. the (f (xs ! i)) < the (f (xs ! j))))"
    and "res = None \<longrightarrow> xs = []" and "xs @ ys \<noteq> []"
    and "\<And>x. x \<in> set xs \<Longrightarrow> f x \<noteq> None"
  shows "\<exists>i<length (xs @ ys).
     fold (\<lambda>value res.
          case f value of
            None \<Rightarrow> res
          | Some current \<Rightarrow>
              (case res of
                 None \<Rightarrow> Some (value, current)
               | Some (result, computed) \<Rightarrow>
                   if current < computed then Some (value, current) else res)) ys res
      = Some ((xs @ ys) ! i, the (f ((xs @ ys) ! i))) \<and>
      (\<forall>j<length (xs @ ys). the (f ((xs @ ys) ! i)) \<le> the (f ((xs @ ys) ! j))) \<and>
      (\<forall>j<i. the (f ((xs @ ys) ! i)) < the (f ((xs @ ys) ! j)))"
  using assms
proof (induction ys arbitrary: xs res)
  case Nil
  then show ?case by auto
next
  case (Cons y ys)
  from Cons.prems(1) obtain cur where cur: "f y = Some cur" by auto
  let ?res' = "(case res of None \<Rightarrow> Some (y, cur)
      | Some (result, computed) \<Rightarrow> if cur < computed then Some (y, cur) else res)"
  have "\<exists>i<length ((xs @ [y]) @ ys).
     fold (\<lambda>value res.
          case f value of
            None \<Rightarrow> res
          | Some current \<Rightarrow>
              (case res of
                 None \<Rightarrow> Some (value, current)
               | Some (result, computed) \<Rightarrow>
                   if current < computed then Some (value, current) else res)) ys ?res'
      = Some (((xs @ [y]) @ ys) ! i, the (f (((xs @ [y]) @ ys) ! i))) \<and>
      (\<forall>j<length ((xs @ [y]) @ ys). the (f (((xs @ [y]) @ ys) ! i)) \<le> the (f (((xs @ [y]) @ ys) ! j))) \<and>
      (\<forall>j<i. the (f (((xs @ [y]) @ ys) ! i)) < the (f (((xs @ [y]) @ ys) ! j)))"
  proof (rule Cons.IH)
    show "f x \<noteq> None" if "x \<in> set ys" for x
      using that Cons.prems(1) by simp
    show "f x \<noteq> None" if "x \<in> set (xs @ [y])" for x
      using that Cons.prems(5) cur by auto
    show "?res' = None \<longrightarrow> xs @ [y] = []"
      by (auto split: option.splits)
    show "(xs @ [y]) @ ys \<noteq> []" by simp
    show "?res' = None \<or> (\<exists>i<length (xs @ [y]). ?res' = Some ((xs @ [y]) ! i, the (f ((xs @ [y]) ! i))) \<and>
          (\<forall>j<length (xs @ [y]). the (f ((xs @ [y]) ! i)) \<le> the (f ((xs @ [y]) ! j))) \<and>
          (\<forall>j<i. the (f ((xs @ [y]) ! i)) < the (f ((xs @ [y]) ! j))))"
    proof (cases res)
      case None
      with Cons.prems(3) have "xs = []" by simp
      with None show ?thesis by (simp add: cur)
    next
      case (Some p)
      with Cons.prems(2) obtain i where i: "i < length xs" "res = Some (xs ! i, the (f (xs ! i)))"
        "\<forall>j<length xs. the (f (xs ! i)) \<le> the (f (xs ! j))"
        "\<forall>j<i. the (f (xs ! i)) < the (f (xs ! j))" by auto
      show ?thesis
      proof (cases "cur < the (f (xs ! i))")
        case True
        have "?res' = Some ((xs @ [y]) ! length xs, the (f ((xs @ [y]) ! length xs)))"
          using True i(2) by (simp add: cur)
        moreover have "\<forall>j<length (xs @ [y]). the (f ((xs @ [y]) ! length xs)) \<le> the (f ((xs @ [y]) ! j))"
          using True i(3) by (auto simp: nth_append cur less_Suc_eq)
        moreover have "\<forall>j<length xs. the (f ((xs @ [y]) ! length xs)) < the (f ((xs @ [y]) ! j))"
          using True i(3) by (auto simp: nth_append cur)
        ultimately show ?thesis
          by (intro disjI2 exI[of _ "length xs"]) simp
      next
        case False
        have "?res' = Some ((xs @ [y]) ! i, the (f ((xs @ [y]) ! i)))"
          using False i(1,2) by (simp add: nth_append)
        moreover have "\<forall>j<length (xs @ [y]). the (f ((xs @ [y]) ! i)) \<le> the (f ((xs @ [y]) ! j))"
          using False i(1,3) by (auto simp: nth_append cur less_Suc_eq)
        moreover have "\<forall>j<i. the (f ((xs @ [y]) ! i)) < the (f ((xs @ [y]) ! j))"
          using i(1,4) by (auto simp: nth_append)
        ultimately show ?thesis
          using i(1) by (intro disjI2 exI[of _ i]) simp
      qed
    qed
  qed
  then show ?case
    by (simp add: cur)
qed

lemma minBy_first_least:
  fixes f :: "'a \<Rightarrow> real option"
  assumes "array \<noteq> []" and "\<And>x. x \<in> set array \<Longrightarrow> f x \<noteq> None"
  shows "\<exists>i<length array. minBy f array = Some (array ! i) \<and>
      (\<forall>j<length array. the (f (array ! i)) \<le> the (f (array ! j))) \<and>
      (\<forall>j<i. the (f (array ! i)) < the (f (array ! j)))"
  using minBy_fold[of array f None "[]"] assms
  unfolding minBy_def by auto


text \<open>
  C4. For four non-empty coordinate maps stored under the keys \<open>ul\<close>, \<open>ur\<close>, \<open>dl\<close>,
  \<open>dr\<close>, \<open>findSmallestWidthAlignment\<close> returns one of them, its width
  \<open>max\<^sub>v (xs[v] + width(v)/2) - min\<^sub>v (xs[v] - width(v)/2)\<close> is at most the width of
  each of the four, and every map before it in the order \<open>ul, ur, dl, dr\<close> is strictly wider:
  ties go to the first.
\<close>

theorem findSmallestWidthAlignment_least:
  fixes g :: graph and ul ur dl dr :: "real obj"
  defines "xss \<equiv> [(''ul'', ul), (''ur'', ur), (''dl'', dl), (''dr'', dr)]"
  defines "W \<equiv> \<lambda>xs. Max ((\<lambda>(v, x). x + width (node g v) / 2) ` set xs) -
                     Min ((\<lambda>(v, x). x - width (node g v) / 2) ` set xs)"
  assumes "ul \<noteq> []" and "ur \<noteq> []" and "dl \<noteq> []" and "dr \<noteq> []"
  shows "\<exists>i<4. findSmallestWidthAlignment g xss = Some ([ul, ur, dl, dr] ! i) \<and>
           (\<forall>j<4. W ([ul, ur, dl, dr] ! i) \<le> W ([ul, ur, dl, dr] ! j)) \<and>
           (\<forall>j<i. W ([ul, ur, dl, dr] ! i) < W ([ul, ur, dl, dr] ! j))"
proof -
  define vals where "vals = [ul, ur, dl, dr]"
  have len: "length vals = 4" by (simp add: vals_def)
  have w: "alignmentWidth g xs = Some (W xs)" if "xs \<in> set vals" for xs
    using that assms(3-) unfolding W_def vals_def by (intro alignmentWidth_eq) auto
  have "\<exists>i<length vals. minBy (alignmentWidth g) vals = Some (vals ! i) \<and>
      (\<forall>j<length vals. the (alignmentWidth g (vals ! i)) \<le> the (alignmentWidth g (vals ! j))) \<and>
      (\<forall>j<i. the (alignmentWidth g (vals ! i)) < the (alignmentWidth g (vals ! j)))"
  proof (rule minBy_first_least)
    show "vals \<noteq> []" by (simp add: vals_def)
    show "alignmentWidth g x \<noteq> None" if "x \<in> set vals" for x
      using w[OF that] by simp
  qed
  then obtain i where i: "i < 4" "minBy (alignmentWidth g) vals = Some (vals ! i)"
      "\<forall>j<4. the (alignmentWidth g (vals ! i)) \<le> the (alignmentWidth g (vals ! j))"
      "\<forall>j<i. the (alignmentWidth g (vals ! i)) < the (alignmentWidth g (vals ! j))"
    unfolding len by blast
  have wn: "the (alignmentWidth g (vals ! j)) = W (vals ! j)" if "j < 4" for j
    using w[of "vals ! j"] that nth_mem[of j vals] len by simp
  have "findSmallestWidthAlignment g xss = Some (vals ! i)"
    unfolding findSmallestWidthAlignment_def xss_def js_values_four
    using i(2) by (simp only: vals_def)
  moreover have "W (vals ! i) \<le> W (vals ! j)" if "j < 4" for j
    using i(3)[rule_format, OF that] wn[OF i(1)] wn[OF that] by simp
  moreover have "W (vals ! i) < W (vals ! j)" if "j < i" for j
  proof -
    from that i(1) have "j < 4" by simp
    then show ?thesis
      using i(4)[rule_format, OF that] wn[OF i(1)] wn[of j] by simp
  qed
  ultimately have "i < 4 \<and> findSmallestWidthAlignment g xss = Some (vals ! i) \<and>
      (\<forall>j<4. W (vals ! i) \<le> W (vals ! j)) \<and> (\<forall>j<i. W (vals ! i) < W (vals ! j))"
    using i(1) by simp
  then show ?thesis
    unfolding vals_def by (rule_tac x = i in exI)
qed


lemma s2_width: "width (node s2_graph v) = 50"
  by (simp add: s2_graph_def s2_label_def)

text \<open>Widths 150, 110, 110 and 250: the result is \<open>ur\<close>, the first of the two narrowest.\<close>

theorem findSmallestWidthAlignment_least_witness:
  "findSmallestWidthAlignment s2_graph
     [(''ul'', [(''a'', 0), (''b'', 100)]), (''ur'', [(''a'', 0), (''b'', 60)]),
      (''dl'', [(''b'', 60), (''a'', 0)]), (''dr'', [(''a'', 0), (''b'', 200)])]
   = Some [(''a'', 0), (''b'', 60)]"
proof -
  define W where "W = (\<lambda>xs. Max ((\<lambda>(v, x). x + width (node s2_graph v) / 2) ` set xs) -
                     Min ((\<lambda>(v, x). x - width (node s2_graph v) / 2) ` set xs))"
  define ul ur dl dr :: "real obj" where "ul = [(''a'', 0), (''b'', 100)]"
    and "ur = [(''a'', 0), (''b'', 60)]" and "dl = [(''b'', 60), (''a'', 0)]"
    and "dr = [(''a'', 0), (''b'', 200)]"
  have W: "W ul = 150" "W ur = 110" "W dl = 110" "W dr = 250"
    by (simp_all add: W_def ul_def ur_def dl_def dr_def s2_width)
  have ne: "ul \<noteq> []" "ur \<noteq> []" "dl \<noteq> []" "dr \<noteq> []"
    by (simp_all add: ul_def ur_def dl_def dr_def)
  from findSmallestWidthAlignment_least[OF ne, of s2_graph]
  obtain i where i: "i < 4"
    "findSmallestWidthAlignment s2_graph [(''ul'', ul), (''ur'', ur), (''dl'', dl), (''dr'', dr)]
       = Some ([ul, ur, dl, dr] ! i)"
    "\<forall>j<4. W ([ul, ur, dl, dr] ! i) \<le> W ([ul, ur, dl, dr] ! j)"
    "\<forall>j<i. W ([ul, ur, dl, dr] ! i) < W ([ul, ur, dl, dr] ! j)"
    unfolding W_def by blast
  from i(1) consider "i = 0" | "i = 1" | "i = 2" | "i = 3" by linarith
  then have "i = 1"
  proof cases
    case 1
    with i(3)[rule_format, of 1] W show ?thesis by simp
  next
    case 2
    then show ?thesis .
  next
    case 3
    with i(4)[rule_format, of 1] W show ?thesis by simp
  next
    case 4
    with i(3)[rule_format, of 1] W show ?thesis by simp
  qed
  with i(2) show ?thesis
    by (simp add: ul_def ur_def dl_def dr_def)
qed



subsection \<open>Vertical alignment: blocks are cycles of \<open>align\<close>\<close>

lemma fold_inv_mem:
  assumes "P s" and "\<And>x s. x \<in> set xs \<Longrightarrow> P s \<Longrightarrow> P (f x s)"
  shows "P (fold f xs s)"
  using assms by (induction xs arbitrary: s) simp_all

lemma fold_index_inv:
  assumes "P 0 s" and "\<And>k s. k < length xs \<Longrightarrow> P k s \<Longrightarrow> P (Suc k) (f (xs ! k) s)"
  shows "P (length xs) (fold f xs s)"
  using assms(2)
proof (induction xs rule: rev_induct)
  case Nil
  then show ?case using assms(1) by simp
next
  case (snoc x xs)
  have "P (length xs) (fold f xs s)"
  proof (rule snoc.IH)
    fix k s assume "k < length xs" "P k s"
    then show "P (Suc k) (f (xs ! k) s)"
      using snoc.prems[of k s] by (simp add: nth_append)
  qed
  then show ?case
    using snoc.prems[of "length xs" "fold f xs s"] by simp
qed

text \<open>The index of the layer a vertex is on.\<close>

fun layerOf :: "vertex list list \<Rightarrow> vertex \<Rightarrow> nat" where
  "layerOf [] v = 0"
| "layerOf (l # ls) v = (if v \<in> set l then 0 else Suc (layerOf ls v))"

lemma layerOf_nth:
  "distinct (concat L) \<Longrightarrow> i < length L \<Longrightarrow> v \<in> set (L ! i) \<Longrightarrow> layerOf L v = i"
proof (induction L arbitrary: i)
  case Nil
  then show ?case by simp
next
  case (Cons l ls)
  show ?case
  proof (cases i)
    case 0
    with Cons.prems show ?thesis by simp
  next
    case (Suc j)
    with Cons.prems have j: "j < length ls" "v \<in> set (ls ! j)" by simp_all
    then have "v \<in> set (concat ls)" by auto
    with Cons.prems(1) have "v \<notin> set l" by auto
    moreover have "layerOf ls v = j"
      using Cons.IH[OF _ j] Cons.prems(1) by simp
    ultimately show ?thesis using Suc by simp
  qed
qed

lemma layerOf_mem:
  "v \<in> set (concat L) \<Longrightarrow> layerOf L v < length L \<and> v \<in> set (L ! layerOf L v)"
  by (induction L) auto

definition blockInv ::
  "vertex list list \<Rightarrow> (vertex \<rightharpoonup> vertex) \<Rightarrow> (vertex \<rightharpoonup> vertex) \<Rightarrow> bool" where
  "blockInv L R A \<longleftrightarrow>
     (\<forall>v\<in>set (concat L). \<exists>r\<in>set (concat L).
        R v = Some r \<and> R r = Some r \<and> (r = v \<or> layerOf L r < layerOf L v)) \<and>
     (\<forall>v\<in>set (concat L). \<exists>a\<in>set (concat L).
        A v = Some a \<and> R a = R v \<and> (R v = Some a \<or> layerOf L a = Suc (layerOf L v))) \<and>
     (\<forall>u\<in>set (concat L). \<forall>v\<in>set (concat L). A u = A v \<longrightarrow> u = v) \<and>
     (\<forall>v\<in>set (concat L). R v \<noteq> Some v \<longrightarrow>
        (\<exists>p\<in>set (concat L). A p = Some v \<and> Suc (layerOf L p) = layerOf L v)) \<and>
     (\<forall>v\<in>set (concat L). A v = Some v \<longrightarrow> R v = Some v)"

definition frontInv ::
  "vertex list list \<Rightarrow> (vertex \<rightharpoonup> nat) \<Rightarrow> nat \<Rightarrow> int \<Rightarrow>
   (vertex \<rightharpoonup> vertex) \<Rightarrow> (vertex \<rightharpoonup> vertex) \<Rightarrow> bool" where
  "frontInv L pos k prevIdx R A \<longleftrightarrow>
     (\<forall>v\<in>set (concat L). k < layerOf L v \<longrightarrow> R v = Some v) \<and>
     (\<forall>v\<in>set (concat L). k \<le> layerOf L v \<longrightarrow> A v = R v) \<and>
     (\<forall>w\<in>set (concat L). Suc (layerOf L w) = k \<longrightarrow>
        (\<forall>p. pos w = Some p \<longrightarrow> prevIdx < int p \<longrightarrow> A w = R w))"

lemma align_step_inv:
  assumes B: "blockInv L R A" and F: "frontInv L pos k prevIdx R A"
    and v: "v \<in> set (concat L)" "layerOf L v = k"
    and w: "w \<in> set (concat L)" "Suc (layerOf L w) = k"
    and p: "pos w = Some p" "prevIdx < int p"
    and Av: "A v = Some v" and Rw: "R w = Some r"
  shows "blockInv L (R(v \<mapsto> r)) (A(w \<mapsto> v, v \<mapsto> r)) \<and>
         frontInv L pos k (int p) (R(v \<mapsto> r)) (A(w \<mapsto> v, v \<mapsto> r))"
proof -
  let ?V = "set (concat L)"
  let ?lay = "layerOf L"
  let ?R = "R(v \<mapsto> r)"
  let ?A = "A(w \<mapsto> v, v \<mapsto> r)"
  note B1 = B[unfolded blockInv_def, THEN conjunct1, rule_format]
  note B2 = B[unfolded blockInv_def, THEN conjunct2, THEN conjunct1, rule_format]
  note B3 = B[unfolded blockInv_def, THEN conjunct2, THEN conjunct2, THEN conjunct1, rule_format]
  note B4 = B[unfolded blockInv_def, THEN conjunct2, THEN conjunct2, THEN conjunct2, THEN conjunct1, rule_format]
  note B5 = B[unfolded blockInv_def, THEN conjunct2, THEN conjunct2, THEN conjunct2, THEN conjunct2, rule_format]
  note F1 = F[unfolded frontInv_def, THEN conjunct1, rule_format]
  note F2 = F[unfolded frontInv_def, THEN conjunct2, THEN conjunct1, rule_format]
  note F3 = F[unfolded frontInv_def, THEN conjunct2, THEN conjunct2, rule_format]
  have wv: "w \<noteq> v" using v(2) w(2) by auto
  from B1[OF w(1)] Rw have r: "r \<in> ?V" "R r = Some r" "r = w \<or> ?lay r < ?lay w"
    by auto
  have lay_r: "?lay r < ?lay v" using r(3) v(2) w(2) by auto
  then have rv: "r \<noteq> v" by auto
  have Rv: "R v = Some v" using B5[OF v(1) Av] .
  have Aw: "A w = Some r" using F3[OF w p] Rw by simp
  have noRv: "R u \<noteq> Some v" if "u \<in> ?V" "u \<noteq> v" for u
  proof
    assume a: "R u = Some v"
    from B1[OF that(1)] a that(2) have "?lay v < ?lay u" by auto
    with v(2) have "R u = Some u" using F1[OF that(1)] by simp
    with a that(2) show False by simp
  qed
  have noAv: "A u \<noteq> Some v" if "u \<in> ?V" "u \<noteq> v" for u
    using B3[OF that(1) v(1)] Av that(2) by auto
  have noAr: "A u \<noteq> Some r" if "u \<in> ?V" "u \<noteq> w" for u
    using B3[OF that(1) w(1)] Aw that(2) by auto
  have c1: "\<exists>r'\<in>?V. ?R u = Some r' \<and> ?R r' = Some r' \<and> (r' = u \<or> ?lay r' < ?lay u)"
    if u: "u \<in> ?V" for u
  proof (cases "u = v")
    case True
    then show ?thesis using r(1,2) rv lay_r by (intro bexI[of _ r]) simp_all
  next
    case False
    from B1[OF u] obtain r' where r': "r' \<in> ?V" "R u = Some r'" "R r' = Some r'"
      "r' = u \<or> ?lay r' < ?lay u" by auto
    from noRv[OF u False] r'(2) have "r' \<noteq> v" by auto
    with r' False show ?thesis by (intro bexI[of _ r']) simp_all
  qed
  have c2: "\<exists>a\<in>?V. ?A u = Some a \<and> ?R a = ?R u \<and> (?R u = Some a \<or> ?lay a = Suc (?lay u))"
    if u: "u \<in> ?V" for u
  proof -
    consider "u = v" | "u = w" | "u \<noteq> v" "u \<noteq> w" by blast
    then show ?thesis
    proof cases
      case 1
      then show ?thesis using r(1,2) rv by (intro bexI[of _ r]) simp_all
    next
      case 2
      then show ?thesis using v wv Rw w(2) by (intro bexI[of _ v]) simp_all
    next
      case 3
      from B2[OF u] obtain a where a: "a \<in> ?V" "A u = Some a" "R a = R u"
        "R u = Some a \<or> ?lay a = Suc (?lay u)" by auto
      from noAv[OF u 3(1)] a(2) have "a \<noteq> v" by auto
      with a 3 show ?thesis by (intro bexI[of _ a]) simp_all
    qed
  qed
  have c3: "u = u'" if u: "u \<in> ?V" "u' \<in> ?V" "?A u = ?A u'" for u u'
  proof -
    have val: "?A x = (if x = v then Some r else if x = w then Some v else A x)" for x
      by simp
    have other: "?A x \<noteq> Some r \<and> ?A x \<noteq> Some v" if "x \<in> ?V" "x \<noteq> v" "x \<noteq> w" for x
      using noAv[OF that(1,2)] noAr[OF that(1,3)] that by simp
    consider "u = v" | "u = w" "u \<noteq> v" | "u \<noteq> v" "u \<noteq> w" by blast
    then show ?thesis
    proof cases
      case 1
      then have "?A u' = Some r" using u(3) by simp
      then show ?thesis using 1 other[OF u(2)] rv wv by (cases "u' = v"; cases "u' = w") auto
    next
      case 2
      then have "?A u' = Some v" using u(3) wv by simp
      then show ?thesis using 2 other[OF u(2)] rv wv by (cases "u' = v"; cases "u' = w") auto
    next
      case 3
      then have eq: "?A u' = A u" using u(3) by simp
      from other[OF u(1) 3] 3 have Au: "A u \<noteq> Some r" "A u \<noteq> Some v" by simp_all
      have "u' \<noteq> v" using eq Au by auto
      moreover have "u' \<noteq> w" using eq Au wv by auto
      ultimately have "A u' = A u" using eq by simp
      then show ?thesis using B3[OF u(2,1)] by simp
    qed
  qed
  have c4: "\<exists>p\<in>?V. ?A p = Some u \<and> Suc (?lay p) = ?lay u" if u: "u \<in> ?V" "?R u \<noteq> Some u" for u
  proof (cases "u = v")
    case True
    then show ?thesis using w wv v(2) by (intro bexI[of _ w]) simp_all
  next
    case False
    with u(2) have Ru: "R u \<noteq> Some u" by simp
    from B4[OF u(1) Ru] obtain q where q: "q \<in> ?V" "A q = Some u" "Suc (?lay q) = ?lay u"
      by auto
    have "q \<noteq> v" using q(2) Av False by auto
    moreover have "q \<noteq> w" using q(2) Aw r(2) Ru by auto
    ultimately show ?thesis using q by (intro bexI[of _ q]) simp_all
  qed
  have c5: "?R u = Some u" if u: "u \<in> ?V" "?A u = Some u" for u
  proof -
    have "u \<noteq> v" using u(2) rv by auto
    moreover have "u \<noteq> w" using u(2) wv \<open>u \<noteq> v\<close> by auto
    ultimately show ?thesis using B5[OF u(1)] u(2) by simp
  qed
  have f1: "?R u = Some u" if "u \<in> ?V" "k < ?lay u" for u
    using F1[OF that] that(2) v(2) by auto
  have f2: "?A u = ?R u" if "u \<in> ?V" "k \<le> ?lay u" for u
  proof (cases "u = v")
    case True
    then show ?thesis by simp
  next
    case False
    moreover have "u \<noteq> w" using that(2) w(2) by auto
    ultimately show ?thesis using F2[OF that] by simp
  qed
  have f3: "?A w' = ?R w'"
    if "w' \<in> ?V" "Suc (?lay w') = k" "pos w' = Some p'" "int p < int p'" for w' p'
  proof -
    have "w' \<noteq> v" using that(2) v(2) by auto
    moreover have "w' \<noteq> w" using that(3,4) p(1) by auto
    moreover have "prevIdx < int p'" using p(2) that(4) by simp
    ultimately show ?thesis using F3[OF that(1,2,3)] by simp
  qed
  have "blockInv L ?R ?A"
    unfolding blockInv_def using c1 c2 c3 c4 c5 by blast
  moreover have "frontInv L pos k (int p) ?R ?A"
    unfolding frontInv_def using f1 f2 f3 by blast
  ultimately show ?thesis ..
qed


definition vaInv ::
  "vertex list list \<Rightarrow> (vertex \<rightharpoonup> nat) \<Rightarrow> vertex list \<Rightarrow> nat \<Rightarrow>
   vertex obj \<times> vertex obj \<times> int \<Rightarrow> bool" where
  "vaInv L pos ks k = (\<lambda>(root, align, prevIdx).
     map fst root = ks \<and> map fst align = ks \<and>
     blockInv L (map_of root) (map_of align) \<and>
     frontInv L pos k prevIdx (map_of root) (map_of align))"

lemma alignStep_inv:
  assumes inv: "vaInv L pos ks k s" and ks: "set ks = set (concat L)"
    and pos: "dom pos = set (concat L)"
    and v: "v \<in> set (concat L)" "layerOf L v = k"
    and w: "w \<in> set (concat L) \<Longrightarrow> Suc (layerOf L w) = k"
  shows "vaInv L pos ks k (alignStep conflicts pos v w s)"
proof -
  obtain root align prevIdx where s: "s = (root, align, prevIdx)" by (cases s)
  from inv s have keys: "map fst root = ks" "map fst align = ks"
    and B: "blockInv L (map_of root) (map_of align)"
    and F: "frontInv L pos k prevIdx (map_of root) (map_of align)"
    by (simp_all add: vaInv_def)
  show ?thesis
  proof (cases "pos w")
    case None
    then show ?thesis using inv by (simp add: alignStep_def s)
  next
    case (Some p)
    then have wV: "w \<in> set (concat L)" using pos by auto
    show ?thesis
    proof (cases "map_of root w")
      case None
      then show ?thesis using inv Some by (simp add: alignStep_def s)
    next
      case r: (Some r)
      show ?thesis
      proof (cases "map_of align v = Some v \<and> prevIdx < int p \<and> \<not> hasConflict conflicts v w")
        case False
        then show ?thesis using inv Some r by (auto simp: alignStep_def s)
      next
        case True
        then have t: "map_of align v = Some v" "prevIdx < int p" by simp_all
        have "blockInv L ((map_of root)(v \<mapsto> r)) ((map_of align)(w \<mapsto> v, v \<mapsto> r)) \<and>
              frontInv L pos k (int p) ((map_of root)(v \<mapsto> r)) ((map_of align)(w \<mapsto> v, v \<mapsto> r))"
          using B F v wV w[OF wV] Some t(2) t(1) r by (rule align_step_inv)
        moreover have "map fst (AList.update v r root) = ks"
          using keys(1) ks v(1) by (simp add: update_keys)
        moreover have "map fst (AList.update v r (AList.update w v align)) = ks"
          using keys(2) ks v(1) wV by (simp add: update_keys)
        ultimately show ?thesis
          using Some r True by (simp add: alignStep_def s vaInv_def update_conv')
      qed
    qed
  qed
qed

lemma properLayering_neighbor:
  assumes "properLayering L neighborFn" and "v \<in> set (concat L)" and "w \<in> set (neighborFn v)"
  shows "w \<in> set (concat L) \<and> Suc (layerOf L w) = layerOf L v"
proof -
  from layerOf_mem[OF assms(2)] have i: "layerOf L v < length L" "v \<in> set (L ! layerOf L v)"
    by simp_all
  with assms(1,3) have pos: "0 < layerOf L v" and w: "w \<in> set (L ! (layerOf L v - 1))"
    unfolding properLayering_def by blast+
  from i(1) have lt: "layerOf L v - 1 < length L" by simp
  from assms(1) have "distinct (concat L)" by (simp add: properLayering_def)
  from layerOf_nth[OF this lt w] pos have "Suc (layerOf L w) = layerOf L v" by simp
  moreover have "w \<in> set (concat L)" using w lt by auto
  ultimately show ?thesis by simp
qed

lemma set_sortByPos [simp]: "set (sortByPos pos ws) = set ws"
  by (simp add: sortByPos_def)

lemma length_sortByPos [simp]: "length (sortByPos pos ws) = length ws"
  by (simp add: sortByPos_def)

lemma alignVertex_inv:
  assumes inv: "vaInv L pos ks k s" and ks: "set ks = set (concat L)"
    and pos: "dom pos = set (concat L)"
    and v: "v \<in> set (concat L)" "layerOf L v = k"
    and proper: "properLayering L neighborFn"
  shows "vaInv L pos ks k (alignVertex conflicts neighborFn pos v s)"
proof (cases "neighborFn v = []")
  case True
  then show ?thesis using inv by (simp add: alignVertex_def)
next
  case False
  let ?ws = "sortByPos pos (neighborFn v)"
  have "vaInv L pos ks k (fold (\<lambda>i. alignStep conflicts pos v (?ws ! i))
          [(length ?ws - 1) div 2 ..< length ?ws div 2 + 1] s)"
  proof (rule fold_inv_mem[where P = "vaInv L pos ks k"])
    show "vaInv L pos ks k s" by (rule inv)
  next
    fix i s' assume i: "i \<in> set [(length ?ws - 1) div 2 ..< length ?ws div 2 + 1]"
      and s': "vaInv L pos ks k s'"
    from False have "0 < length ?ws" by simp
    with i have "i < length ?ws" by auto
    then have "?ws ! i \<in> set ?ws" by (rule nth_mem)
    then have mem: "?ws ! i \<in> set (neighborFn v)" by simp
    show "vaInv L pos ks k (alignStep conflicts pos v (?ws ! i) s')"
      using s' ks pos v
    proof (rule alignStep_inv)
      show "Suc (layerOf L (?ws ! i)) = k"
        using properLayering_neighbor[OF proper v(1) mem] v(2) by simp
    qed
  qed
  then show ?thesis
    unfolding alignVertex_def Let_def using False by (simp del: upt_Suc)
qed

lemma frontInv_next:
  assumes "frontInv L pos k prevIdx R A"
  shows "frontInv L pos (Suc k) (- 1) R A"
  using assms unfolding frontInv_def by auto

lemma alignLayer_inv:
  assumes inv: "vaInv L pos ks k (fst s, snd s, - 1)" and ks: "set ks = set (concat L)"
    and pos: "dom pos = set (concat L)"
    and k: "k < length L"
    and proper: "properLayering L neighborFn"
  shows "vaInv L pos ks (Suc k)
    (fst (alignLayer conflicts neighborFn pos (L ! k) s),
     snd (alignLayer conflicts neighborFn pos (L ! k) s), - 1)"
proof -
  obtain root align where s: "s = (root, align)" by (cases s)
  have dist: "distinct (concat L)" using proper by (simp add: properLayering_def)
  have "vaInv L pos ks k (fold (alignVertex conflicts neighborFn pos) (L ! k) (root, align, - 1))"
  proof (rule fold_inv_mem[where P = "vaInv L pos ks k"])
    show "vaInv L pos ks k (root, align, - 1)" using inv s by simp
  next
    fix v s' assume v: "v \<in> set (L ! k)" and s': "vaInv L pos ks k s'"
    have "v \<in> set (concat L)" using v k by auto
    moreover have "layerOf L v = k" using layerOf_nth[OF dist k v] .
    ultimately show "vaInv L pos ks k (alignVertex conflicts neighborFn pos v s')"
      using s' ks pos proper by (intro alignVertex_inv)
  qed
  moreover obtain root' align' prevIdx' where
    f: "fold (alignVertex conflicts neighborFn pos) (L ! k) (root, align, - 1) = (root', align', prevIdx')"
    by (cases "fold (alignVertex conflicts neighborFn pos) (L ! k) (root, align, - 1)")
  ultimately have "vaInv L pos ks k (root', align', prevIdx')" by simp
  then have "vaInv L pos ks (Suc k) (root', align', - 1)"
    by (auto simp: vaInv_def intro: frontInv_next)
  then show ?thesis
    by (simp add: alignLayer_def s f)
qed


definition initOK :: "vertex set \<Rightarrow> vertex obj \<times> vertex obj \<times> (vertex \<rightharpoonup> nat) \<Rightarrow> bool" where
  "initOK S = (\<lambda>(root, align, pos).
     map fst align = map fst root \<and> distinct (map fst root) \<and> fst ` set root = S \<and>
     (\<forall>v. map_of root v = (if v \<in> S then Some v else None)) \<and>
     (\<forall>v. map_of align v = (if v \<in> S then Some v else None)) \<and>
     dom pos = S)"

lemma initOK_D:
  fixes root :: "vertex obj"
  assumes "initOK S (root, align, pos)"
  shows "map fst align = map fst root" "distinct (map fst root)" "fst ` set root = S"
    "map_of root v = (if v \<in> S then Some v else None)"
    "map_of align v = (if v \<in> S then Some v else None)" "dom pos = S"
  using assms by (simp_all only: initOK_def prod.case)

lemma fst_set_update: "fst ` set (AList.update k v al) = insert k (fst ` set al)"
  using dom_update[of k v al] by (simp add: dom_map_of_conv_image_fst)

lemma initOK_step:
  assumes "initOK S s"
  shows "initOK (insert v S) (initVertex (n, v) s)"
proof -
  obtain root align pos where s: "s = (root, align, pos)" by (cases s)
  note D = initOK_D[OF assms[unfolded s]]
  have "map fst (AList.update v v align) = map fst (AList.update v v root)"
    using D(1) by (simp add: update_keys)
  moreover have "distinct (map fst (AList.update v v root))"
    using D(2) by (rule distinct_update)
  moreover have "fst ` set (AList.update v v root) = insert v S"
    using D(3) by (simp add: fst_set_update)
  moreover have "map_of (AList.update v v root) u = (if u \<in> insert v S then Some u else None)" for u
    using D(4)[of u] by (simp add: update_conv')
  moreover have "map_of (AList.update v v align) u = (if u \<in> insert v S then Some u else None)" for u
    using D(5)[of u] by (simp add: update_conv')
  moreover have "dom (pos(v \<mapsto> n)) = insert v S"
    using D(6) by simp
  ultimately show ?thesis
    unfolding s initVertex_def initOK_def prod.case by blast
qed

lemma initOK_layer:
  assumes "initOK S s"
  shows "initOK (S \<union> snd ` set es) (fold initVertex es s)"
  using assms
proof (induction es arbitrary: S s)
  case Nil
  then show ?case by simp
next
  case (Cons e es)
  obtain n v where e: "e = (n, v)" by (cases e)
  have "initOK (insert v S \<union> snd ` set es) (fold initVertex es (initVertex (n, v) s))"
    by (rule Cons.IH) (rule initOK_step[OF Cons.prems])
  then show ?case by (simp add: e)
qed

lemma snd_enumerate: "snd ` set (List.enumerate n xs) = set xs"
  by (force simp: enumerate_eq_zip in_set_zip in_set_conv_nth)

lemma initOK_layers:
  assumes "initOK S s"
  shows "initOK (S \<union> set (concat L))
           (fold (\<lambda>layer. fold initVertex (List.enumerate 0 layer)) L s)"
  using assms
proof (induction L arbitrary: S s)
  case Nil
  then show ?case by simp
next
  case (Cons l L)
  have "initOK (S \<union> set l) (fold initVertex (List.enumerate 0 l) s)"
    using initOK_layer[OF Cons.prems, of "List.enumerate 0 l"] by (simp add: snd_enumerate)
  from Cons.IH[OF this] show ?case by (simp add: Un_assoc)
qed

lemma initOK_initAlignment: "initOK (set (concat L)) (initAlignment L)"
proof -
  have "initOK {} ([], [], Map.empty)" by (simp add: initOK_def)
  from initOK_layers[OF this, of L] show ?thesis
    unfolding initAlignment_def by simp
qed

lemma vaInv_init:
  fixes root :: "vertex obj"
  assumes "initOK (set (concat L)) (root, align, pos)"
  shows "vaInv L pos (map fst root) 0 (root, align, - 1)"
proof -
  note D = initOK_D[OF assms]
  have R: "map_of root v = Some v" and A: "map_of align v = Some v"
    if "v \<in> set (concat L)" for v
    using D(4)[of v] D(5)[of v] that by simp_all
  have "blockInv L (map_of root) (map_of align)"
    unfolding blockInv_def using R A by (auto simp del: set_concat)
  moreover have "frontInv L pos 0 (- 1) (map_of root) (map_of align)"
    unfolding frontInv_def using R A by (auto simp del: set_concat)
  ultimately show ?thesis
    using D(1) by (simp add: vaInv_def)
qed

theorem verticalAlignment_blockInv:
  fixes root :: "vertex obj"
  assumes proper: "properLayering L neighborFn"
    and va: "verticalAlignment g L conflicts neighborFn = (root, align)"
  shows "blockInv L (map_of root) (map_of align) \<and> map fst root = map fst align \<and>
         distinct (map fst align) \<and> set (map fst align) = set (concat L)"
proof -
  obtain root0 align0 pos where init: "initAlignment L = (root0, align0, pos)"
    by (cases "initAlignment L")
  have ok: "initOK (set (concat L)) (root0, align0, pos)"
    using initOK_initAlignment[of L] init by simp
  have ks: "set (map fst root0) = set (concat L)" and pos: "dom pos = set (concat L)"
    and dist: "distinct (map fst root0)"
    using initOK_D[OF ok] by (simp_all del: set_concat)
  let ?P = "\<lambda>k s. vaInv L pos (map fst root0) k (fst s, snd s, - 1)"
  have "?P (length L) (fold (alignLayer conflicts neighborFn pos) L (root0, align0))"
  proof (rule fold_index_inv[where P = ?P])
    show "?P 0 (root0, align0)" using vaInv_init[OF ok] by simp
  next
    fix k s assume "k < length L" "?P k s"
    then show "?P (Suc k) (alignLayer conflicts neighborFn pos (L ! k) s)"
      using ks pos proper by (intro alignLayer_inv)
  qed
  moreover have "fold (alignLayer conflicts neighborFn pos) L (root0, align0) = (root, align)"
    using va by (simp add: verticalAlignment_def init)
  ultimately have "vaInv L pos (map fst root0) (length L) (root, align, - 1)" by simp
  then show ?thesis
    using ks dist by (simp add: vaInv_def)
qed


lemma blockInv_D:
  assumes "blockInv L R A" and "v \<in> set (concat L)"
  shows "\<exists>r\<in>set (concat L). R v = Some r \<and> R r = Some r \<and> (r = v \<or> layerOf L r < layerOf L v)"
    and "\<exists>a\<in>set (concat L). A v = Some a \<and> R a = R v \<and>
           (R v = Some a \<or> layerOf L a = Suc (layerOf L v))"
    and "u \<in> set (concat L) \<Longrightarrow> A u = A v \<Longrightarrow> u = v"
    and "R v \<noteq> Some v \<Longrightarrow> \<exists>p\<in>set (concat L). A p = Some v \<and> Suc (layerOf L p) = layerOf L v"
  using assms unfolding blockInv_def by blast+

text \<open>\<open>nextOf A\<close> follows \<open>align\<close> once.\<close>

definition nextOf :: "(vertex \<rightharpoonup> vertex) \<Rightarrow> vertex \<Rightarrow> vertex" where
  "nextOf A u = (case A u of Some a \<Rightarrow> a | None \<Rightarrow> u)"

lemma nextOf_props:
  assumes B: "blockInv L R A" and v: "v \<in> set (concat L)"
  shows "nextOf A v \<in> set (concat L)" and "A v = Some (nextOf A v)"
    and "R (nextOf A v) = R v"
    and "R v = Some (nextOf A v) \<or> layerOf L (nextOf A v) = Suc (layerOf L v)"
  using blockInv_D(2)[OF B v] by (auto simp: nextOf_def)

lemma block_pred:
  assumes B: "blockInv L R A" and v: "v \<in> set (concat L)" and ne: "R v \<noteq> Some v"
  shows "\<exists>p\<in>set (concat L). nextOf A p = v \<and> Suc (layerOf L p) = layerOf L v \<and> R p = R v"
proof -
  from blockInv_D(4)[OF B v ne] obtain p where p: "p \<in> set (concat L)" "A p = Some v"
    "Suc (layerOf L p) = layerOf L v" by auto
  from nextOf_props(2,3)[OF B p(1)] p(2) have "nextOf A p = v" "R p = R v" by simp_all
  with p show ?thesis by auto
qed

lemma block_distinct_layers:
  assumes B: "blockInv L R A"
  shows "u \<in> set (concat L) \<Longrightarrow> u' \<in> set (concat L) \<Longrightarrow> R u = R u' \<Longrightarrow>
         layerOf L u = layerOf L u' \<Longrightarrow> u = u'"
proof (induction "layerOf L u" arbitrary: u u' rule: less_induct)
  case less
  from blockInv_D(1)[OF B less.prems(1)] obtain r where r: "R u = Some r" "R r = Some r"
    "r = u \<or> layerOf L r < layerOf L u" by auto
  from blockInv_D(1)[OF B less.prems(2)] r(1) less.prems(3)
  have r': "r = u' \<or> layerOf L r < layerOf L u'" by auto
  show ?case
  proof (cases "r = u \<or> r = u'")
    case True
    then show ?thesis using r(3) r' less.prems(4) by auto
  next
    case False
    then have ne: "R u \<noteq> Some u" "R u' \<noteq> Some u'" using r(1) less.prems(3) by auto
    from block_pred[OF B less.prems(1) ne(1)] obtain p where p: "p \<in> set (concat L)"
      "nextOf A p = u" "Suc (layerOf L p) = layerOf L u" "R p = R u" by auto
    from block_pred[OF B less.prems(2) ne(2)] obtain p' where p': "p' \<in> set (concat L)"
      "nextOf A p' = u'" "Suc (layerOf L p') = layerOf L u'" "R p' = R u'" by auto
    have "p = p'"
    proof (rule less.hyps)
      show "layerOf L p < layerOf L u" using p(3) by linarith
      show "p \<in> set (concat L)" "p' \<in> set (concat L)" by (rule p(1), rule p'(1))
      show "R p = R p'" using p(4) p'(4) less.prems(3) by (rule_tac trans[OF _ sym]) (rule trans)
      show "layerOf L p = layerOf L p'" using p(3) p'(3) less.prems(4) by linarith
    qed
    then show ?thesis using p(2) p'(2) by (rule_tac trans[OF sym]) (assumption, simp)
  qed
qed

lemma chain_in_block:
  assumes B: "blockInv L R A" and r: "r \<in> set (concat L)" "R r = Some r"
  shows "(nextOf A ^^ k) r \<in> set (concat L) \<and> R ((nextOf A ^^ k) r) = Some r"
proof (induction k)
  case 0
  then show ?case using r by simp
next
  case (Suc k)
  then show ?case using nextOf_props(1,3)[OF B, of "(nextOf A ^^ k) r"] by simp
qed

lemma chain_layers:
  assumes B: "blockInv L R A" and r: "r \<in> set (concat L)" "R r = Some r"
    and no: "\<And>j. 0 < j \<Longrightarrow> j \<le> k \<Longrightarrow> (nextOf A ^^ j) r \<noteq> r"
  shows "layerOf L ((nextOf A ^^ k) r) = layerOf L r + k"
  using no
proof (induction k)
  case 0
  then show ?case by simp
next
  case (Suc k)
  let ?x = "(nextOf A ^^ k) r"
  have x: "?x \<in> set (concat L)" "R ?x = Some r" using chain_in_block[OF B r, of k] by simp_all
  have IH: "layerOf L ?x = layerOf L r + k" using Suc by simp
  have "nextOf A ?x \<noteq> r" using Suc.prems[of "Suc k"] by simp
  with nextOf_props(4)[OF B x(1)] x(2) have "layerOf L (nextOf A ?x) = Suc (layerOf L ?x)"
    by auto
  with IH show ?case by simp
qed

lemma chain_returns:
  assumes B: "blockInv L R A" and r: "r \<in> set (concat L)" "R r = Some r"
  shows "\<exists>n>0. (nextOf A ^^ n) r = r"
proof (rule ccontr)
  assume "\<not> ?thesis"
  then have no: "\<And>j. 0 < j \<Longrightarrow> (nextOf A ^^ j) r \<noteq> r" by blast
  have "layerOf L ((nextOf A ^^ length L) r) = layerOf L r + length L"
    by (rule chain_layers[OF B r]) (rule no)
  moreover have "layerOf L ((nextOf A ^^ length L) r) < length L"
    using chain_in_block[OF B r, of "length L"] layerOf_mem by blast
  ultimately show False by simp
qed


lemma orbit_in_block:
  assumes B: "blockInv L R A" and v: "v \<in> set (concat L)"
  shows "(nextOf A ^^ k) v \<in> set (concat L) \<and> R ((nextOf A ^^ k) v) = R v"
proof (induction k)
  case 0
  then show ?case using v by simp
next
  case (Suc k)
  then show ?case using nextOf_props(1,3)[OF B, of "(nextOf A ^^ k) v"] by simp
qed

lemma nextOf_inj:
  assumes B: "blockInv L R A" and "u \<in> set (concat L)" "v \<in> set (concat L)"
    and "nextOf A u = nextOf A v"
  shows "u = v"
proof -
  have "A u = A v"
    using nextOf_props(2)[OF B assms(2)] nextOf_props(2)[OF B assms(3)] assms(4) by simp
  then show ?thesis using blockInv_D(3)[OF B assms(3,2)] by simp
qed

lemma funpow_nextOf_inj:
  assumes B: "blockInv L R A"
  shows "u \<in> set (concat L) \<Longrightarrow> v \<in> set (concat L) \<Longrightarrow>
         (nextOf A ^^ k) u = (nextOf A ^^ k) v \<Longrightarrow> u = v"
proof (induction k)
  case 0
  then show ?case by simp
next
  case (Suc k)
  have "(nextOf A ^^ k) u = (nextOf A ^^ k) v"
  proof (rule nextOf_inj[OF B])
    show "(nextOf A ^^ k) u \<in> set (concat L)" using orbit_in_block[OF B Suc.prems(1)] by simp
    show "(nextOf A ^^ k) v \<in> set (concat L)" using orbit_in_block[OF B Suc.prems(2)] by simp
    show "nextOf A ((nextOf A ^^ k) u) = nextOf A ((nextOf A ^^ k) v)"
      using Suc.prems(3) by simp
  qed
  then show ?case using Suc.IH Suc.prems(1,2) by simp
qed

text \<open>The period of the chain that starts at a root.\<close>

lemma chain_period:
  assumes B: "blockInv L R A" and r: "r \<in> set (concat L)" "R r = Some r"
  obtains n where "0 < n" "(nextOf A ^^ n) r = r"
    "\<And>j. 0 < j \<Longrightarrow> j < n \<Longrightarrow> (nextOf A ^^ j) r \<noteq> r"
proof -
  let ?P = "\<lambda>n. 0 < n \<and> (nextOf A ^^ n) r = r"
  from chain_returns[OF B r] have ex: "\<exists>n. ?P n" by blast
  have "?P (LEAST n. ?P n)" using ex by (rule LeastI_ex)
  moreover have "(nextOf A ^^ j) r \<noteq> r" if "0 < j" "j < (LEAST n. ?P n)" for j
    using not_less_Least[OF that(2)] that(1) by blast
  ultimately show ?thesis using that by blast
qed

lemma chain_inj:
  assumes B: "blockInv L R A" and r: "r \<in> set (concat L)" "R r = Some r"
    and no: "\<And>j. 0 < j \<Longrightarrow> j < n \<Longrightarrow> (nextOf A ^^ j) r \<noteq> r"
    and "j < n" "k < n" "(nextOf A ^^ j) r = (nextOf A ^^ k) r"
  shows "j = k"
proof -
  have lay: "layerOf L ((nextOf A ^^ i) r) = layerOf L r + i" if "i < n" for i
  proof (rule chain_layers[OF B r])
    fix j assume "0 < j" "j \<le> i"
    with that show "(nextOf A ^^ j) r \<noteq> r" by (intro no) simp_all
  qed
  from assms(7) have "layerOf L ((nextOf A ^^ j) r) = layerOf L ((nextOf A ^^ k) r)"
    by (rule arg_cong)
  then have "layerOf L r + j = layerOf L r + k"
    unfolding lay[OF assms(5)] lay[OF assms(6)] .
  then show ?thesis by simp
qed

lemma chain_cover:
  assumes B: "blockInv L R A" and r: "r \<in> set (concat L)" "R r = Some r"
    and n: "0 < n" "(nextOf A ^^ n) r = r"
  shows "u \<in> set (concat L) \<Longrightarrow> R u = Some r \<Longrightarrow> \<exists>k<n. u = (nextOf A ^^ k) r"
proof (induction "layerOf L u" arbitrary: u rule: less_induct)
  case less
  show ?case
  proof (cases "u = r")
    case True
    then show ?thesis using n(1) by (intro exI[of _ 0]) simp
  next
    case False
    then have "R u \<noteq> Some u" using less.prems(2) by simp
    from block_pred[OF B less.prems(1) this] obtain p where p: "p \<in> set (concat L)"
      "nextOf A p = u" "Suc (layerOf L p) = layerOf L u" "R p = R u" by auto
    have "\<exists>k<n. p = (nextOf A ^^ k) r"
    proof (rule less.hyps)
      show "layerOf L p < layerOf L u" using p(3) by linarith
      show "p \<in> set (concat L)" by (rule p(1))
      show "R p = Some r" using p(4) less.prems(2) by (rule trans)
    qed
    then obtain k where k: "k < n" "p = (nextOf A ^^ k) r" by auto
    then have u: "u = (nextOf A ^^ Suc k) r" using p(2) by simp
    have "Suc k \<noteq> n" using u n(2) False by auto
    with k(1) have "Suc k < n" by simp
    with u show ?thesis by blast
  qed
qed


lemma block_cycle:
  assumes B: "blockInv L R A" and dist: "distinct (concat L)" and v: "v \<in> set (concat L)"
  defines "blk \<equiv> filter (\<lambda>u. R u = R v) (concat L)"
  shows "(nextOf A ^^ length blk) v = v"
    and "distinct (map (\<lambda>k. (nextOf A ^^ k) v) [0..<length blk])"
    and "set (map (\<lambda>k. (nextOf A ^^ k) v) [0..<length blk]) = set blk"
proof -
  let ?nx = "nextOf A"
  from blockInv_D(1)[OF B v] obtain r where r: "r \<in> set (concat L)" "R v = Some r" "R r = Some r"
    by auto
  from chain_period[OF B r(1,3)] obtain n where n: "0 < n" "(?nx ^^ n) r = r"
    "\<And>j. 0 < j \<Longrightarrow> j < n \<Longrightarrow> (?nx ^^ j) r \<noteq> r" by blast
  let ?c = "\<lambda>k. (?nx ^^ k) r"
  have cinj: "a = b" if "a < n" "b < n" "?c a = ?c b" for a b
  proof (rule chain_inj[OF B r(1,3) _ that])
    show "\<And>j. 0 < j \<Longrightarrow> j < n \<Longrightarrow> (?nx ^^ j) r \<noteq> r" by (rule n(3))
  qed
  have inj: "inj_on ?c {..<n}"
  proof (rule inj_onI)
    fix a b assume "a \<in> {..<n}" "b \<in> {..<n}" and eq: "?c a = ?c b"
    then have "a < n" "b < n" by simp_all
    then show "a = b" using eq by (rule cinj)
  qed
  have blk_set: "set blk = ?c ` {..<n}"
  proof (rule set_eqI, rule iffI)
    fix u assume "u \<in> set blk"
    then have "u \<in> set (concat L)" "R u = Some r" using r(2) by (simp_all add: blk_def)
    from chain_cover[OF B r(1,3) n(1,2) this] show "u \<in> ?c ` {..<n}" by auto
  next
    fix u assume "u \<in> ?c ` {..<n}"
    then obtain k where "u = ?c k" by auto
    with chain_in_block[OF B r(1,3), of k] r(2) show "u \<in> set blk"
      by (simp add: blk_def del: set_concat)
  qed
  have "distinct blk" using dist by (simp add: blk_def)
  then have "length blk = card (set blk)" by (simp add: distinct_card)
  also have "\<dots> = n" using inj by (simp add: blk_set card_image)
  finally have len: "length blk = n" .
  have shift: "?c (k + n) = ?c k" for k
    by (simp add: funpow_add n(2))
  from v r(2) have "v \<in> set blk" by (simp add: blk_def)
  then obtain j where j: "j < n" "v = ?c j" using blk_set by auto
  have orb: "(?nx ^^ k) v = ?c (k + j)" for k
    unfolding j(2) by (simp add: funpow_add)
  have "(?nx ^^ n) v = ?c (n + j)" by (rule orb)
  also have "\<dots> = ?c (j + n)" by (simp only: add.commute)
  also have "\<dots> = ?c j" by (rule shift)
  also have "\<dots> = v" by (rule j(2)[symmetric])
  finally show "(?nx ^^ length blk) v = v" unfolding len .
  have ne: "(?nx ^^ k) v \<noteq> (?nx ^^ k') v" if kk: "k < k'" "k' < n" for k k'
  proof
    assume eq: "(?nx ^^ k) v = (?nx ^^ k') v"
    define d where "d = k' - k"
    have d: "0 < d" "d < n" "k' = k + d" using kk by (simp_all add: d_def)
    have "(?nx ^^ k') v = (?nx ^^ k) ((?nx ^^ d) v)"
      unfolding d(3) by (simp add: funpow_add)
    with eq have eq': "(?nx ^^ k) v = (?nx ^^ k) ((?nx ^^ d) v)" by (rule trans)
    have dV: "(?nx ^^ d) v \<in> set (concat L)"
      using orbit_in_block[OF B v, of d] by (rule conjunct1)
    have "v = (?nx ^^ d) v"
      using v dV eq' by (rule funpow_nextOf_inj[OF B])
    have "?c j = v" by (rule j(2)[symmetric])
    also have "v = (?nx ^^ d) v" by fact
    also have "\<dots> = ?c (d + j)" by (rule orb)
    finally have cj: "?c j = ?c (d + j)" .
    show False
    proof (cases "d + j < n")
      case True
      from cinj[OF j(1) True cj] d(1) show False by simp
    next
      case False
      define t where "t = d + j - n"
      have t: "t < n" "d + j = t + n" using False d(2) j(1) by (simp_all add: t_def)
      have "?c j = ?c (t + n)" using cj unfolding t(2) .
      also have "\<dots> = ?c t" by (rule shift)
      finally have "?c j = ?c t" .
      from cinj[OF j(1) t(1) this] t(2) d(2) show False by simp
    qed
  qed
  have inj_orb: "inj_on (\<lambda>k. (?nx ^^ k) v) {0..<n}"
    by (rule linorder_inj_onI) (use ne in auto)
  then show dorb: "distinct (map (\<lambda>k. (?nx ^^ k) v) [0..<length blk])"
    unfolding len by (simp add: distinct_map)
  have sub: "set (map (\<lambda>k. (?nx ^^ k) v) [0..<length blk]) \<subseteq> set blk"
  proof
    fix u assume "u \<in> set (map (\<lambda>k. (?nx ^^ k) v) [0..<length blk])"
    then obtain k where "u = (?nx ^^ k) v" by auto
    with orbit_in_block[OF B v, of k] show "u \<in> set blk"
      by (simp add: blk_def del: set_concat)
  qed
  have "card (set (map (\<lambda>k. (?nx ^^ k) v) [0..<length blk])) = length blk"
    using distinct_card[OF dorb] by simp
  also have "\<dots> = card (set blk)" using \<open>length blk = card (set blk)\<close> .
  finally show "set (map (\<lambda>k. (?nx ^^ k) v) [0..<length blk]) = set blk"
    using sub by (intro card_subset_eq) simp_all
qed


lemma alignNext_nextOf: "alignNext align = nextOf (map_of align)"
  by (rule ext) (simp add: alignNext_def nextOf_def)

text \<open>
  C5. Let the layering hold every vertex once and let every neighbour of a vertex on layer
  \<open>i\<close> lie on layer \<open>i - 1\<close> of the oriented layering. Then, for every vertex \<open>v\<close>,
  \<open>root[root[v]] = root[v]\<close> and \<open>root[align[v]] = root[v]\<close>; following \<open>align\<close> from
  \<open>v\<close> for as many steps as the block of \<open>v\<close> has members returns to \<open>v\<close> and visits
  exactly the members of the block, each once; and two members of a block on the same layer
  are equal.
\<close>

theorem verticalAlignment_blocks:
  fixes root :: "vertex obj"
  assumes proper: "properLayering layering neighborFn"
    and va: "verticalAlignment g layering conflicts neighborFn = (root, align)"
    and v: "v \<in> set (concat layering)"
  shows "(\<exists>r a. map_of root v = Some r \<and> map_of align v = Some a \<and>
            map_of root r = Some r \<and> map_of root a = Some r) \<and>
         (alignNext align ^^ length (blockOf root layering v)) v = v \<and>
         distinct (alignOrbit align v (length (blockOf root layering v))) \<and>
         set (alignOrbit align v (length (blockOf root layering v))) =
           set (blockOf root layering v) \<and>
         (\<forall>i<length layering. \<forall>u\<in>set (layering ! i). \<forall>u'\<in>set (layering ! i).
            u \<in> set (blockOf root layering v) \<longrightarrow> u' \<in> set (blockOf root layering v) \<longrightarrow>
            u = u')"
proof -
  let ?R = "map_of root" and ?A = "map_of align"
  have B: "blockInv layering ?R ?A"
    using verticalAlignment_blockInv[OF proper va] by (rule conjunct1)
  have dist: "distinct (concat layering)"
    using proper by (simp add: properLayering_def)
  from blockInv_D(1)[OF B v] obtain r where r: "?R v = Some r" "?R r = Some r" by auto
  from blockInv_D(2)[OF B v] r(1) obtain a where a: "?A v = Some a" "?R a = Some r" by auto
  have p1: "\<exists>r a. ?R v = Some r \<and> ?A v = Some a \<and> ?R r = Some r \<and> ?R a = Some r"
    using r a by blast
  have cyc: "(alignNext align ^^ length (blockOf root layering v)) v = v"
    "distinct (alignOrbit align v (length (blockOf root layering v)))"
    "set (alignOrbit align v (length (blockOf root layering v))) = set (blockOf root layering v)"
    unfolding alignOrbit_def blockOf_def alignNext_nextOf
    by (rule block_cycle[OF B dist v])+
  have p5: "u = u'"
    if i: "i < length layering" and u: "u \<in> set (layering ! i)" "u' \<in> set (layering ! i)"
      and b: "u \<in> set (blockOf root layering v)" "u' \<in> set (blockOf root layering v)"
    for i u u'
  proof (rule block_distinct_layers[OF B])
    show "u \<in> set (concat layering)" "u' \<in> set (concat layering)"
      using b by (simp_all add: blockOf_def del: set_concat)
    have "?R u = ?R v" "?R u' = ?R v" using b by (simp_all add: blockOf_def)
    then show "?R u = ?R u'" by (rule_tac trans[OF _ sym])
    show "layerOf layering u = layerOf layering u'"
      using layerOf_nth[OF dist i u(1)] layerOf_nth[OF dist i u(2)] by (rule_tac trans[OF _ sym])
  qed
  have p5': "\<forall>i<length layering. \<forall>u\<in>set (layering ! i). \<forall>u'\<in>set (layering ! i).
            u \<in> set (blockOf root layering v) \<longrightarrow> u' \<in> set (blockOf root layering v) \<longrightarrow>
            u = u'"
    by (intro allI impI ballI) (rule p5)
  show ?thesis
    by (intro conjI p1 cyc p5')
qed

lemma x_proper: "properLayering x_layering (predecessors x_graph)"
proof -
  have "0 < i \<and> w \<in> set (x_layering ! (i - 1))"
    if "i < length x_layering" "v \<in> set (x_layering ! i)" "w \<in> set (predecessors x_graph v)"
    for i v w
  proof -
    from that(1) have "i < 2" by (simp add: x_layering_def)
    then consider "i = 0" | "i = 1" by linarith
    then show ?thesis
      using that(2,3) by cases (auto simp: x_layering_def x_graph_def split: if_splits)
  qed
  moreover have "distinct (concat x_layering)" by (simp add: x_layering_def)
  ultimately show ?thesis unfolding properLayering_def by blast
qed

lemma x_verticalAlignment:
  "verticalAlignment x_graph x_layering Map.empty (predecessors x_graph) =
     ([(''a'', ''a''), (''b'', ''b''), (''c'', ''b''), (''d'', ''d'')],
      [(''a'', ''a''), (''b'', ''c''), (''c'', ''b''), (''d'', ''d'')])"
  by (simp add: verticalAlignment_def initAlignment_def initVertex_def x_layering_def
      alignLayer_def alignVertex_def x_graph_def sortByPos_def alignStep_def enumerate_eq_zip)

text \<open>In the crossing example the dummies \<open>b\<close> and \<open>c\<close> form a block with root \<open>b\<close>.\<close>

theorem verticalAlignment_blocks_witness:
  "properLayering x_layering (predecessors x_graph) \<and>
   ''c'' \<in> set (concat x_layering) \<and>
   blockOf (fst (verticalAlignment x_graph x_layering Map.empty (predecessors x_graph)))
     x_layering ''c'' = [''b'', ''c''] \<and>
   alignOrbit (snd (verticalAlignment x_graph x_layering Map.empty (predecessors x_graph)))
     ''c'' 2 = [''c'', ''b''] \<and>
   set (alignOrbit (snd (verticalAlignment x_graph x_layering Map.empty (predecessors x_graph)))
     ''c'' 2) = {''b'', ''c''} \<and>
   (alignNext (snd (verticalAlignment x_graph x_layering Map.empty (predecessors x_graph))) ^^ 2)
     ''c'' = ''c''"
proof -
  let ?rt = "[(''a'', ''a''), (''b'', ''b''), (''c'', ''b''), (''d'', ''d'')]"
  let ?al = "[(''a'', ''a''), (''b'', ''c''), (''c'', ''b''), (''d'', ''d'')]"
  have c: "''c'' \<in> set (concat x_layering)" by (simp add: x_layering_def)
  have blk: "blockOf ?rt x_layering ''c'' = [''b'', ''c'']"
    by (simp add: blockOf_def x_layering_def)
  have orb: "alignOrbit ?al ''c'' 2 = [''c'', ''b'']"
    by (simp add: alignOrbit_def alignNext_def numeral_2_eq_2)
  have len: "length (blockOf ?rt x_layering ''c'') = 2"
    by (simp add: blk)
  from verticalAlignment_blocks[OF x_proper x_verticalAlignment c, unfolded len]
  have t1: "(alignNext ?al ^^ 2) ''c'' = ''c''"
    and t2: "set (alignOrbit ?al ''c'' 2) = set (blockOf ?rt x_layering ''c'')"
    by blast+
  have t3: "set (alignOrbit ?al ''c'' 2) = {''b'', ''c''}"
    unfolding t2 blk by simp
  show ?thesis
    unfolding x_verticalAlignment fst_conv snd_conv
    by (intro conjI x_proper c blk orb t3 t1)
qed



subsection \<open>The block graph and \<open>horizontalCompaction\<close>\<close>

definition wfBlockGraph :: "blockGraph \<Rightarrow> bool" where
  "wfBlockGraph bg \<longleftrightarrow>
     distinct (bnodes bg) \<and> distinct (map fst (bedges bg)) \<and>
     (\<forall>e\<in>set (map fst (bedges bg)). fst e \<in> set (bnodes bg) \<and> snd e \<in> set (bnodes bg))"

definition bgLe :: "blockGraph \<Rightarrow> blockGraph \<Rightarrow> bool" where
  "bgLe bg bg' \<longleftrightarrow>
     set (bnodes bg) \<subseteq> set (bnodes bg') \<and>
     (\<forall>e w. edge bg e = Some w \<longrightarrow> (\<exists>w'. edge bg' e = Some w' \<and> w \<le> w'))"

lemma bgLe_refl: "bgLe bg bg"
  by (simp add: bgLe_def)

lemma bgLe_trans: "bgLe a b \<Longrightarrow> bgLe b c \<Longrightarrow> bgLe a c"
  unfolding bgLe_def by (meson order_trans subset_trans)

lemma wf_emptyGraph: "wfBlockGraph emptyGraph"
  by (simp add: wfBlockGraph_def emptyGraph_def)

lemma set_bnodes_setNode: "set (bnodes (setNode bg v)) = insert v (set (bnodes bg))"
  by (auto simp: setNode_def)

lemma bedges_setNode: "bedges (setNode bg v) = bedges bg"
  by (simp add: setNode_def)

lemma edge_setNode: "edge (setNode bg v) e = edge bg e"
  by (simp add: edge_def bedges_setNode)

lemma wf_setNode: "wfBlockGraph bg \<Longrightarrow> wfBlockGraph (setNode bg v)"
  unfolding wfBlockGraph_def by (auto simp: setNode_def)

lemma bgLe_setNode: "bgLe bg (setNode bg v)"
  by (auto simp: bgLe_def set_bnodes_setNode edge_setNode)

lemma edge_None_iff: "edge bg e = None \<longleftrightarrow> e \<notin> set (map fst (bedges bg))"
  by (simp add: edge_def map_of_eq_None_iff)

lemma update_append: "k \<notin> fst ` set al \<Longrightarrow> AList.update k v al = al @ [(k, v)]"
  by (induction al) auto

lemma bedges_setEdge: "bedges (setEdge bg v w x) = AList.update (v, w) x (bedges bg)"
proof (cases "edge bg (v, w)")
  case None
  then have "(v, w) \<notin> fst ` set (bedges bg)" by (simp add: edge_None_iff)
  then show ?thesis using None by (simp add: setEdge_def update_append bedges_setNode)
next
  case (Some a)
  then show ?thesis by (simp add: setEdge_def)
qed

lemma edge_setEdge: "edge (setEdge bg v w x) e = (if e = (v, w) then Some x else edge bg e)"
  by (simp add: edge_def bedges_setEdge update_conv')

lemma set_bnodes_setEdge:
  "wfBlockGraph bg \<Longrightarrow> set (bnodes (setEdge bg v w x)) = insert v (insert w (set (bnodes bg)))"
proof (cases "edge bg (v, w)")
  case None
  then show ?thesis by (auto simp: setEdge_def set_bnodes_setNode)
next
  case (Some a)
  assume "wfBlockGraph bg"
  moreover from Some have "(v, w) \<in> set (map fst (bedges bg))"
    using edge_None_iff[of bg "(v, w)"] by auto
  ultimately have "v \<in> set (bnodes bg)" "w \<in> set (bnodes bg)"
    unfolding wfBlockGraph_def by force+
  then show ?thesis using Some by (auto simp: setEdge_def)
qed

lemma keys_setEdge:
  "set (map fst (bedges (setEdge bg v w x))) = insert (v, w) (set (map fst (bedges bg)))"
  by (auto simp: bedges_setEdge update_keys)

lemma wf_setEdge:
  assumes "wfBlockGraph bg"
  shows "wfBlockGraph (setEdge bg v w x)"
proof -
  have d1: "distinct (bnodes (setEdge bg v w x))"
    using assms by (auto simp: setEdge_def wfBlockGraph_def setNode_def)
  have d2: "distinct (map fst (bedges (setEdge bg v w x)))"
    using assms by (simp add: bedges_setEdge wfBlockGraph_def distinct_update)
  have d3: "fst e \<in> set (bnodes (setEdge bg v w x)) \<and> snd e \<in> set (bnodes (setEdge bg v w x))"
    if "e \<in> set (map fst (bedges (setEdge bg v w x)))" for e
    using that assms unfolding keys_setEdge set_bnodes_setEdge[OF assms] wfBlockGraph_def
    by auto
  show ?thesis unfolding wfBlockGraph_def using d1 d2 d3 by blast
qed

lemma bgLe_setEdge:
  assumes "wfBlockGraph bg"
  shows "bgLe bg (setEdge bg v w (max s (case edge bg (v, w) of None \<Rightarrow> 0 | Some m \<Rightarrow> m)))"
  unfolding bgLe_def set_bnodes_setEdge[OF assms] edge_setEdge
  by (auto split: option.splits)


text \<open>\<open>adjacentIn layer a b\<close>: \<open>a\<close> is immediately left of \<open>b\<close> on the layer.\<close>

fun adjacentIn :: "'a list \<Rightarrow> 'a \<Rightarrow> 'a \<Rightarrow> bool" where
  "adjacentIn (x # y # rest) a b = ((a = x \<and> b = y) \<or> adjacentIn (y # rest) a b)"
| "adjacentIn [x] a b = False"
| "adjacentIn [] a b = False"

lemma adjacentIn_nth: "Suc i < length xs \<Longrightarrow> adjacentIn xs (xs ! i) (xs ! Suc i)"
proof (induction xs arbitrary: i)
  case Nil
  then show ?case by simp
next
  case (Cons x xs)
  show ?case
  proof (cases xs)
    case Nil
    with Cons.prems show ?thesis by simp
  next
    case (Cons y rest)
    show ?thesis
    proof (cases i)
      case 0
      then show ?thesis using Cons by simp
    next
      case (Suc j)
      with Cons.prems have "Suc j < length xs" by simp
      from Cons.IH[OF this] show ?thesis using Suc Cons by simp
    qed
  qed
qed

lemma adjacentIn_mem: "adjacentIn xs a b \<Longrightarrow> a \<in> set xs \<and> b \<in> set xs"
  by (induction xs a b rule: adjacentIn.induct) auto

text \<open>The block graph separates \<open>a\<close> and \<open>b\<close>: it has the edge between their roots, with
  a weight of at least \<open>sepFn(g, b, a)\<close>.\<close>

definition sepEdge ::
  "graph \<Rightarrow> (graph \<Rightarrow> vertex \<Rightarrow> vertex \<Rightarrow> real) \<Rightarrow> vertex obj \<Rightarrow> blockGraph \<Rightarrow>
   vertex \<Rightarrow> vertex \<Rightarrow> bool" where
  "sepEdge g sepFn root bg a b \<longleftrightarrow>
     (\<exists>ru rv w. map_of root a = Some ru \<and> map_of root b = Some rv \<and>
        edge bg (ru, rv) = Some w \<and> sepFn g b a \<le> w)"
  for root

lemma sepEdge_mono:
  fixes root :: "vertex obj"
  assumes "sepEdge g sepFn root bg a b" and "bgLe bg bg'"
  shows "sepEdge g sepFn root bg' a b"
proof -
  from assms(1) obtain ru rv w where 1: "map_of root a = Some ru" "map_of root b = Some rv"
    "edge bg (ru, rv) = Some w" "sepFn g b a \<le> w"
    unfolding sepEdge_def by blast
  from assms(2) 1(3) obtain w' where "edge bg' (ru, rv) = Some w'" "w \<le> w'"
    unfolding bgLe_def by blast
  with 1 show ?thesis unfolding sepEdge_def by (intro exI[of _ ru] exI[of _ rv] exI[of _ w']) simp
qed

lemma blockStep_spec:
  fixes root :: "vertex obj"
  assumes wf: "wfBlockGraph bg" and rv: "map_of root v = Some rv"
    and ru: "\<And>u'. u = Some u' \<Longrightarrow> map_of root u' \<noteq> None"
  shows "\<exists>bg'. blockStep g sepFn root v (u, bg) = Some (Some v, bg') \<and> wfBlockGraph bg' \<and>
           bgLe bg bg' \<and> rv \<in> set (bnodes bg') \<and>
           (\<forall>u'. u = Some u' \<longrightarrow> u' \<noteq> [] \<longrightarrow> sepEdge g sepFn root bg' u' v)"
proof (cases "truthyId u")
  case False
  then have "blockStep g sepFn root v (u, bg) = Some (Some v, setNode bg rv)"
    by (simp add: blockStep_def rv)
  moreover have "\<forall>u'. u = Some u' \<longrightarrow> u' \<noteq> [] \<longrightarrow> sepEdge g sepFn root (setNode bg rv) u' v"
    using False by auto
  ultimately show ?thesis
    using wf_setNode[OF wf] bgLe_setNode set_bnodes_setNode by blast
next
  case True
  then obtain u' where u': "u = Some u'" "u' \<noteq> []" by (cases u) auto
  from ru[OF u'(1)] obtain uRoot where uRoot: "map_of root u' = Some uRoot" by auto
  let ?bg1 = "setNode bg rv"
  let ?x = "max (sepFn g v u') (case edge ?bg1 (uRoot, rv) of None \<Rightarrow> 0 | Some m \<Rightarrow> m)"
  let ?bg2 = "setEdge ?bg1 uRoot rv ?x"
  have wf1: "wfBlockGraph ?bg1" by (rule wf_setNode[OF wf])
  have step: "blockStep g sepFn root v (u, bg) = Some (Some v, ?bg2)"
    using True by (simp add: blockStep_def rv u' uRoot Let_def)
  have "wfBlockGraph ?bg2" by (rule wf_setEdge[OF wf1])
  moreover have "bgLe bg ?bg2"
    by (rule bgLe_trans[OF bgLe_setNode bgLe_setEdge[OF wf1]])
  moreover have "rv \<in> set (bnodes ?bg2)"
    by (simp add: set_bnodes_setEdge[OF wf1])
  moreover have "sepEdge g sepFn root ?bg2 u' v"
    unfolding sepEdge_def
    by (intro exI[of _ uRoot] exI[of _ rv] exI[of _ ?x]) (simp add: uRoot rv edge_setEdge)
  ultimately show ?thesis using step u'(1) by auto
qed

lemma blockLayer_spec:
  fixes root :: "vertex obj"
  assumes "wfBlockGraph bg" and "\<And>v. v \<in> set vs \<Longrightarrow> map_of root v \<noteq> None"
    and "\<And>u'. u = Some u' \<Longrightarrow> map_of root u' \<noteq> None"
  shows "\<exists>u'' bg'. foldOpt (blockStep g sepFn root) vs (u, bg) = Some (u'', bg') \<and>
           wfBlockGraph bg' \<and> bgLe bg bg' \<and>
           (\<forall>v\<in>set vs. \<exists>rv. map_of root v = Some rv \<and> rv \<in> set (bnodes bg')) \<and>
           (\<forall>a b. adjacentIn ((case u of None \<Rightarrow> [] | Some u' \<Rightarrow> [u']) @ vs) a b \<longrightarrow>
                  a \<noteq> [] \<longrightarrow> sepEdge g sepFn root bg' a b)"
  using assms
proof (induction vs arbitrary: u bg)
  case Nil
  then show ?case by (auto simp: bgLe_refl split: option.splits)
next
  case (Cons v vs)
  from Cons.prems(2)[of v] obtain rv where rv: "map_of root v = Some rv" by auto
  from blockStep_spec[where g = g and sepFn = sepFn, OF Cons.prems(1) rv Cons.prems(3)]
  obtain bg1 where bg1: "blockStep g sepFn root v (u, bg) = Some (Some v, bg1)"
    "wfBlockGraph bg1" "bgLe bg bg1" "rv \<in> set (bnodes bg1)"
    "\<And>u'. u = Some u' \<Longrightarrow> u' \<noteq> [] \<Longrightarrow> sepEdge g sepFn root bg1 u' v"
    by blast
  have "\<exists>u'' bg'. foldOpt (blockStep g sepFn root) vs (Some v, bg1) = Some (u'', bg') \<and>
           wfBlockGraph bg' \<and> bgLe bg1 bg' \<and>
           (\<forall>v\<in>set vs. \<exists>rv. map_of root v = Some rv \<and> rv \<in> set (bnodes bg')) \<and>
           (\<forall>a b. adjacentIn ((case Some v of None \<Rightarrow> [] | Some u' \<Rightarrow> [u']) @ vs) a b \<longrightarrow>
                  a \<noteq> [] \<longrightarrow> sepEdge g sepFn root bg' a b)"
  proof (rule Cons.IH[OF bg1(2)])
    show "map_of root w \<noteq> None" if "w \<in> set vs" for w
      using that Cons.prems(2)[of w] by simp
    show "map_of root u' \<noteq> None" if "Some v = Some u'" for u'
      using that rv by auto
  qed
  then obtain u'' bg' where IH: "foldOpt (blockStep g sepFn root) vs (Some v, bg1) = Some (u'', bg')"
    "wfBlockGraph bg'" "bgLe bg1 bg'"
    "\<And>w. w \<in> set vs \<Longrightarrow> \<exists>rw. map_of root w = Some rw \<and> rw \<in> set (bnodes bg')"
    "\<And>a b. adjacentIn (v # vs) a b \<Longrightarrow> a \<noteq> [] \<Longrightarrow> sepEdge g sepFn root bg' a b"
    by auto
  have res: "foldOpt (blockStep g sepFn root) (v # vs) (u, bg) = Some (u'', bg')"
    by (simp add: bg1(1) IH(1))
  have le: "bgLe bg bg'" by (rule bgLe_trans[OF bg1(3) IH(3)])
  have nodes: "\<exists>rw. map_of root w = Some rw \<and> rw \<in> set (bnodes bg')" if "w \<in> set (v # vs)" for w
  proof (cases "w = v")
    case True
    have "rv \<in> set (bnodes bg')" using bg1(4) IH(3) unfolding bgLe_def by blast
    then show ?thesis using True rv by simp
  next
    case False
    then show ?thesis using that IH(4) by simp
  qed
  have pairs: "sepEdge g sepFn root bg' a b"
    if "adjacentIn ((case u of None \<Rightarrow> [] | Some u' \<Rightarrow> [u']) @ v # vs) a b" "a \<noteq> []" for a b
  proof (cases u)
    case None
    with that show ?thesis using IH(5) by simp
  next
    case (Some u')
    with that(1) consider "a = u'" "b = v" | "adjacentIn (v # vs) a b" by auto
    then show ?thesis
    proof cases
      case 1
      then show ?thesis using bg1(5)[OF Some] that(2) sepEdge_mono[OF _ IH(3)] by blast
    next
      case 2
      then show ?thesis using IH(5) that(2) by blast
    qed
  qed
  show ?case
    using res IH(2) le nodes pairs by blast
qed


lemma blockLayers_spec:
  fixes root :: "vertex obj"
  assumes "wfBlockGraph bg0" and "\<And>v. v \<in> set (concat L) \<Longrightarrow> map_of root v \<noteq> None"
  shows "\<exists>bg. foldOpt (\<lambda>layer blockGraph.
            map_option snd (foldOpt (blockStep g sepFn root) layer (None, blockGraph))) L bg0
           = Some bg \<and>
         wfBlockGraph bg \<and> bgLe bg0 bg \<and>
         (\<forall>v\<in>set (concat L). \<exists>rv. map_of root v = Some rv \<and> rv \<in> set (bnodes bg)) \<and>
         (\<forall>layer\<in>set L. \<forall>a b. adjacentIn layer a b \<longrightarrow> a \<noteq> [] \<longrightarrow>
            sepEdge g sepFn root bg a b)"
  using assms
proof (induction L arbitrary: bg0)
  case Nil
  then show ?case by (simp add: bgLe_refl)
next
  case (Cons layer L)
  let ?f = "\<lambda>layer blockGraph.
            map_option snd (foldOpt (blockStep g sepFn root) layer (None, blockGraph))"
  have "\<exists>u'' bg'. foldOpt (blockStep g sepFn root) layer (None, bg0) = Some (u'', bg') \<and>
           wfBlockGraph bg' \<and> bgLe bg0 bg' \<and>
           (\<forall>v\<in>set layer. \<exists>rv. map_of root v = Some rv \<and> rv \<in> set (bnodes bg')) \<and>
           (\<forall>a b. adjacentIn ((case None of None \<Rightarrow> [] | Some u' \<Rightarrow> [u']) @ layer) a b \<longrightarrow>
                  a \<noteq> [] \<longrightarrow> sepEdge g sepFn root bg' a b)"
  proof (rule blockLayer_spec[OF Cons.prems(1)])
    show "map_of root v \<noteq> None" if "v \<in> set layer" for v
      using that Cons.prems(2)[of v] by simp
  qed simp
  then obtain u'' bg1 where 1: "foldOpt (blockStep g sepFn root) layer (None, bg0) = Some (u'', bg1)"
    "wfBlockGraph bg1" "bgLe bg0 bg1"
    "\<And>v. v \<in> set layer \<Longrightarrow> \<exists>rv. map_of root v = Some rv \<and> rv \<in> set (bnodes bg1)"
    "\<And>a b. adjacentIn layer a b \<Longrightarrow> a \<noteq> [] \<Longrightarrow> sepEdge g sepFn root bg1 a b"
    by auto
  have "\<exists>bg. foldOpt ?f L bg1 = Some bg \<and> wfBlockGraph bg \<and> bgLe bg1 bg \<and>
         (\<forall>v\<in>set (concat L). \<exists>rv. map_of root v = Some rv \<and> rv \<in> set (bnodes bg)) \<and>
         (\<forall>layer\<in>set L. \<forall>a b. adjacentIn layer a b \<longrightarrow> a \<noteq> [] \<longrightarrow>
            sepEdge g sepFn root bg a b)"
  proof (rule Cons.IH[OF 1(2)])
    show "map_of root v \<noteq> None" if "v \<in> set (concat L)" for v
      using that Cons.prems(2)[of v] by simp
  qed
  then obtain bg where 2: "foldOpt ?f L bg1 = Some bg" "wfBlockGraph bg" "bgLe bg1 bg"
    "\<And>v. v \<in> set (concat L) \<Longrightarrow> \<exists>rv. map_of root v = Some rv \<and> rv \<in> set (bnodes bg)"
    "\<And>l a b. l \<in> set L \<Longrightarrow> adjacentIn l a b \<Longrightarrow> a \<noteq> [] \<Longrightarrow> sepEdge g sepFn root bg a b"
    by blast
  have res: "foldOpt ?f (layer # L) bg0 = Some bg" by (simp add: 1(1) 2(1))
  have le: "bgLe bg0 bg" by (rule bgLe_trans[OF 1(3) 2(3)])
  have nodes: "\<exists>rv. map_of root v = Some rv \<and> rv \<in> set (bnodes bg)"
    if "v \<in> set (concat (layer # L))" for v
  proof (cases "v \<in> set layer")
    case True
    from 1(4)[OF True] obtain rv where "map_of root v = Some rv" "rv \<in> set (bnodes bg1)" by auto
    then show ?thesis using 2(3) unfolding bgLe_def by blast
  next
    case False
    with that have "v \<in> set (concat L)" by simp
    then show ?thesis by (rule 2(4))
  qed
  have pairs: "sepEdge g sepFn root bg a b"
    if "l \<in> set (layer # L)" "adjacentIn l a b" "a \<noteq> []" for l a b
  proof (cases "l = layer")
    case True
    then show ?thesis using 1(5) that(2,3) sepEdge_mono[OF _ 2(3)] by blast
  next
    case False
    with that(1) have "l \<in> set L" by simp
    then show ?thesis using that(2,3) by (rule 2(5))
  qed
  show ?case
    using res 2(2) le nodes pairs by blast
qed

lemma buildBlockGraph_spec:
  fixes root :: "vertex obj"
  assumes "\<And>v. v \<in> set (concat L) \<Longrightarrow> map_of root v \<noteq> None"
  shows "\<exists>bg. buildBlockGraph g L root reverseSep = Some bg \<and> wfBlockGraph bg \<and>
         (\<forall>v\<in>set (concat L). \<exists>rv. map_of root v = Some rv \<and> rv \<in> set (bnodes bg)) \<and>
         (\<forall>layer\<in>set L. \<forall>a b. adjacentIn layer a b \<longrightarrow> a \<noteq> [] \<longrightarrow>
            sepEdge g (sep (nodesep (graph_label g)) (edgesep (graph_label g)) reverseSep)
              root bg a b)"
  using blockLayers_spec[OF wf_emptyGraph assms,
      where g = g and sepFn = "sep (nodesep (graph_label g)) (edgesep (graph_label g)) reverseSep"]
  unfolding buildBlockGraph_def Let_def by blast

definition edgeRel :: "blockGraph \<Rightarrow> (vertex \<times> vertex) set" where
  "edgeRel bg = set (map fst (bedges bg))"

definition anc :: "blockGraph \<Rightarrow> vertex \<Rightarrow> vertex set" where
  "anc bg v = {a. (a, v) \<in> (edgeRel bg)\<^sup>+}"

lemma finite_anc: "finite (anc bg v)"
proof (rule finite_subset)
  show "anc bg v \<subseteq> fst ` edgeRel bg"
    unfolding anc_def by (auto dest!: tranclD simp: image_iff) force
  show "finite (fst ` edgeRel bg)" by (simp add: edgeRel_def)
qed

lemma anc_nodes:
  assumes "wfBlockGraph bg"
  shows "anc bg v \<subseteq> set (bnodes bg)"
proof
  fix a assume "a \<in> anc bg v"
  then obtain z where "(a, z) \<in> edgeRel bg" unfolding anc_def by (auto dest!: tranclD)
  with assms show "a \<in> set (bnodes bg)" unfolding wfBlockGraph_def edgeRel_def by force
qed

lemma anc_less:
  assumes "acyclic (edgeRel bg)" and "(u, v) \<in> edgeRel bg"
  shows "card (anc bg u) < card (anc bg v)"
proof (rule psubset_card_mono[OF finite_anc])
  have "anc bg u \<subseteq> anc bg v"
    unfolding anc_def using assms(2) by (auto intro: trancl_into_trancl)
  moreover have "u \<in> anc bg v" unfolding anc_def using assms(2) by auto
  moreover have "u \<notin> anc bg u" unfolding anc_def using assms(1) by (auto simp: acyclic_def)
  ultimately show "anc bg u \<subset> anc bg v" by blast
qed

lemma set_inEdges: "set (inEdges bg v) = {e \<in> edgeRel bg. snd e = v}"
  by (auto simp: inEdges_def edgeRel_def)

lemma set_outEdges: "set (outEdges bg v) = {e \<in> edgeRel bg. fst e = v}"
  by (auto simp: outEdges_def edgeRel_def)

lemma edge_Some: "e \<in> edgeRel bg \<Longrightarrow> \<exists>w. edge bg e = Some w"
  using edge_None_iff[of bg e] by (cases "edge bg e") (auto simp: edgeRel_def)

text \<open>The state of the first sweep: \<open>S\<close> are the nodes whose call is in progress; the
  nodes with a coordinate are those visited and finished, and each edge into a finished node
  is separated.\<close>

definition good1 :: "blockGraph \<Rightarrow> vertex set \<Rightarrow> sweep \<Rightarrow> bool" where
  "good1 bg S st \<longleftrightarrow>
     dom (fst st) = fst ` set (snd st) \<union> S \<and> fst ` set (snd st) \<inter> S = {} \<and>
     distinct (map fst (snd st)) \<and> (\<forall>u c. fst st u = Some c \<longrightarrow> c = 1) \<and>
     (\<forall>e\<in>edgeRel bg. snd e \<in> fst ` set (snd st) \<longrightarrow>
        (\<exists>xa xb w. map_of (snd st) (fst e) = Some xa \<and> map_of (snd st) (snd e) = Some xb \<and>
           edge bg e = Some w \<and> xa + w \<le> xb))"

lemma key_iff: "k \<in> fst ` set al \<longleftrightarrow> map_of al k \<noteq> None"
  by (simp add: map_of_eq_None_iff)

lemma map_le_update:
  assumes "k \<notin> fst ` set al"
  shows "map_of al \<subseteq>\<^sub>m map_of (AList.update k v al)"
  using assms unfolding map_le_def update_conv' by (auto simp: key_iff)

lemma pass1Edge_fold:
  assumes rec: "\<And>u st. (u, v) \<in> edgeRel bg \<Longrightarrow> good1 bg S' st \<Longrightarrow>
            \<exists>st'. rec u st = Some st' \<and> good1 bg S' st' \<and> u \<in> fst ` set (snd st') \<and>
                  map_of (snd st) \<subseteq>\<^sub>m map_of (snd st')"
  shows "set es \<subseteq> {e \<in> edgeRel bg. snd e = v} \<Longrightarrow> good1 bg S' st \<Longrightarrow>
         \<exists>mx' st'. foldOpt (pass1Edge rec bg) es (mx, st) = Some (mx', st') \<and>
            good1 bg S' st' \<and> map_of (snd st) \<subseteq>\<^sub>m map_of (snd st') \<and> mx \<le> mx' \<and>
            (\<forall>e\<in>set es. \<exists>xa w. map_of (snd st') (fst e) = Some xa \<and> edge bg e = Some w \<and>
                 xa + w \<le> mx')"
proof (induction es arbitrary: mx st)
  case Nil
  then show ?case by simp
next
  case (Cons e es)
  from Cons.prems(1) have e: "e \<in> edgeRel bg" "snd e = v" by simp_all
  then have uv: "(fst e, v) \<in> edgeRel bg" by (metis prod.collapse)
  from rec[OF uv Cons.prems(2)] obtain st1 where st1: "rec (fst e) st = Some st1"
    "good1 bg S' st1" "fst e \<in> fst ` set (snd st1)" "map_of (snd st) \<subseteq>\<^sub>m map_of (snd st1)"
    by blast
  from st1(3) obtain x where x: "map_of (snd st1) (fst e) = Some x" by (auto simp: key_iff)
  from edge_Some[OF e(1)] obtain w where w: "edge bg e = Some w" by blast
  have step: "pass1Edge rec bg e (mx, st) = Some (max mx (x + w), st1)"
    by (simp add: pass1Edge_def st1(1) x w)
  from Cons.prems(1) have sub: "set es \<subseteq> {e \<in> edgeRel bg. snd e = v}" by simp
  from Cons.IH[OF sub st1(2), of "max mx (x + w)"] obtain mx' st' where
    IH: "foldOpt (pass1Edge rec bg) es (max mx (x + w), st1) = Some (mx', st')"
      "good1 bg S' st'" "map_of (snd st1) \<subseteq>\<^sub>m map_of (snd st')" "max mx (x + w) \<le> mx'"
      "\<And>e'. e' \<in> set es \<Longrightarrow> \<exists>xa w. map_of (snd st') (fst e') = Some xa \<and> edge bg e' = Some w \<and>
                 xa + w \<le> mx'"
    by blast
  have res: "foldOpt (pass1Edge rec bg) (e # es) (mx, st) = Some (mx', st')"
    by (simp add: step IH(1))
  have le: "map_of (snd st) \<subseteq>\<^sub>m map_of (snd st')"
    by (rule map_le_trans[OF st1(4) IH(3)])
  have x': "map_of (snd st') (fst e) = Some x"
    using IH(3) x unfolding map_le_def by (metis domI)
  have all: "\<exists>xa w. map_of (snd st') (fst e') = Some xa \<and> edge bg e' = Some w \<and> xa + w \<le> mx'"
    if "e' \<in> set (e # es)" for e'
  proof (cases "e' = e")
    case True
    then show ?thesis using x' w IH(4) by auto
  next
    case False
    with that show ?thesis using IH(5) by simp
  qed
  show ?case
    using res IH(2) le IH(4) all by (intro exI[of _ mx'] exI[of _ st']) simp
qed


lemma pass1_spec:
  assumes wf: "wfBlockGraph bg" and ac: "acyclic (edgeRel bg)"
  shows "good1 bg S st \<Longrightarrow> (\<And>s. s \<in> S \<Longrightarrow> (s, v) \<notin> (edgeRel bg)\<^sup>*) \<Longrightarrow>
         card (anc bg v) < n \<Longrightarrow>
         \<exists>st'. pass1 n bg v st = Some st' \<and> good1 bg S st' \<and> v \<in> fst ` set (snd st') \<and>
               map_of (snd st) \<subseteq>\<^sub>m map_of (snd st')"
proof (induction n arbitrary: v S st)
  case 0
  then show ?case by simp
next
  case (Suc n)
  note good = Suc.prems(1)
  have vS: "v \<notin> S" using Suc.prems(2)[of v] by auto
  show ?case
  proof (cases "v \<in> dom (fst st)")
    case True
    then have "v \<in> fst ` set (snd st)" using good vS unfolding good1_def by blast
    then show ?thesis using True good by (simp del: dom_def)
  next
    case False
    let ?st1 = "((fst st)(v \<mapsto> 1), snd st)"
    let ?S' = "insert v S"
    have vD: "v \<notin> fst ` set (snd st)" using False good unfolding good1_def by blast
    have good1: "good1 bg ?S' ?st1"
    proof -
      have "dom (fst ?st1) = fst ` set (snd ?st1) \<union> ?S'"
        using good unfolding good1_def by auto
      moreover have "fst ` set (snd ?st1) \<inter> ?S' = {}"
        using good vD unfolding good1_def by auto
      moreover have "distinct (map fst (snd ?st1))"
        using good unfolding good1_def by simp
      moreover have "\<forall>u c. fst ?st1 u = Some c \<longrightarrow> c = 1"
        using good unfolding good1_def by simp
      moreover have "\<forall>e\<in>edgeRel bg. snd e \<in> fst ` set (snd ?st1) \<longrightarrow>
        (\<exists>xa xb w. map_of (snd ?st1) (fst e) = Some xa \<and> map_of (snd ?st1) (snd e) = Some xb \<and>
           edge bg e = Some w \<and> xa + w \<le> xb)"
        using good unfolding good1_def snd_conv by (elim conjE)
      ultimately show ?thesis unfolding good1_def by (intro conjI)
    qed
    have rec: "\<exists>st'. pass1 n bg u st0 = Some st' \<and> good1 bg ?S' st' \<and> u \<in> fst ` set (snd st') \<and>
                  map_of (snd st0) \<subseteq>\<^sub>m map_of (snd st')"
      if uv: "(u, v) \<in> edgeRel bg" and g0: "good1 bg ?S' st0" for u st0
    proof (rule Suc.IH[OF g0])
      fix s assume s: "s \<in> ?S'"
      show "(s, u) \<notin> (edgeRel bg)\<^sup>*"
      proof
        assume su: "(s, u) \<in> (edgeRel bg)\<^sup>*"
        show False
        proof (cases "s = v")
          case True
          with su uv have "(v, v) \<in> (edgeRel bg)\<^sup>+" by (meson rtrancl_into_trancl1)
          with ac show False by (auto simp: acyclic_def)
        next
          case False
          with s have "s \<in> S" by simp
          moreover from su uv have "(s, v) \<in> (edgeRel bg)\<^sup>*" by (meson rtrancl.rtrancl_into_rtrancl)
          ultimately show False using Suc.prems(2) by blast
        qed
      qed
    next
      from anc_less[OF ac uv] Suc.prems(3) show "card (anc bg u) < n" by simp
    qed
    have "set (inEdges bg v) \<subseteq> {e \<in> edgeRel bg. snd e = v}" by (simp add: set_inEdges)
    from pass1Edge_fold[where rec = "pass1 n bg" and S' = ?S', OF rec this good1, of 0]
    obtain mx stf where f: "foldOpt (pass1Edge (pass1 n bg) bg) (inEdges bg v) (0, ?st1) = Some (mx, stf)"
      "good1 bg ?S' stf" "map_of (snd ?st1) \<subseteq>\<^sub>m map_of (snd stf)"
      "\<And>e. e \<in> set (inEdges bg v) \<Longrightarrow> \<exists>xa w. map_of (snd stf) (fst e) = Some xa \<and>
          edge bg e = Some w \<and> xa + w \<le> mx"
      by blast
    let ?res = "(fst stf, AList.update v mx (snd stf))"
    have res: "pass1 (Suc n) bg v st = Some ?res"
      using False f(1) by (simp del: dom_def)
    have vDf: "v \<notin> fst ` set (snd stf)" using f(2) unfolding good1_def by blast
    have keys: "fst ` set (snd ?res) = insert v (fst ` set (snd stf))"
      by (simp add: fst_set_update)
    have g1: "dom (fst ?res) = fst ` set (snd ?res) \<union> S"
      unfolding keys using f(2) unfolding good1_def by auto
    have g2: "fst ` set (snd ?res) \<inter> S = {}"
      unfolding keys using f(2) vS unfolding good1_def by auto
    have g3: "distinct (map fst (snd ?res))"
      using f(2) unfolding good1_def by (simp add: distinct_update)
    have g5: "\<forall>u c. fst ?res u = Some c \<longrightarrow> c = 1"
      using f(2) unfolding good1_def by simp
    have g4: "\<exists>xa xb w. map_of (snd ?res) (fst e) = Some xa \<and> map_of (snd ?res) (snd e) = Some xb \<and>
           edge bg e = Some w \<and> xa + w \<le> xb"
      if e: "e \<in> edgeRel bg" "snd e \<in> fst ` set (snd ?res)" for e
    proof (cases "snd e = v")
      case True
      with e(1) have "e \<in> set (inEdges bg v)" by (simp add: set_inEdges)
      from f(4)[OF this] obtain xa w where 1: "map_of (snd stf) (fst e) = Some xa"
        "edge bg e = Some w" "xa + w \<le> mx" by blast
      have "fst e \<noteq> v" using 1(1) vDf by (auto simp: key_iff)
      then show ?thesis using 1 True by (simp add: update_conv')
    next
      case False
      with e(2) have "snd e \<in> fst ` set (snd stf)" unfolding keys by simp
      with f(2) e(1) obtain xa xb w where 1: "map_of (snd stf) (fst e) = Some xa"
        "map_of (snd stf) (snd e) = Some xb" "edge bg e = Some w" "xa + w \<le> xb"
        unfolding good1_def by blast
      have "fst e \<noteq> v" using 1(1) vDf by (auto simp: key_iff)
      then show ?thesis using 1 False by (simp add: update_conv')
    qed
    have good': "good1 bg S ?res"
      unfolding good1_def using g1 g2 g3 g4 g5 by blast
    have "map_of (snd st) \<subseteq>\<^sub>m map_of (snd stf)" using f(3) by simp
    then have le: "map_of (snd st) \<subseteq>\<^sub>m map_of (snd ?res)"
      using map_le_update[OF vDf, of mx] by (simp add: map_le_trans)
    have "v \<in> fst ` set (snd ?res)" unfolding keys by simp
    with res good' le show ?thesis by blast
  qed
qed


lemma map_le_keys: "map_of a \<subseteq>\<^sub>m map_of b \<Longrightarrow> fst ` set a \<subseteq> fst ` set b"
  using map_le_implies_dom_le[of "map_of a" "map_of b"] by (simp add: dom_map_of_conv_image_fst)

lemma good1_init: "good1 bg {} (Map.empty, [])"
  by (simp add: good1_def)

lemma pass1_all:
  assumes wf: "wfBlockGraph bg" and ac: "acyclic (edgeRel bg)"
    and depth: "length (bnodes bg) < depth"
  shows "good1 bg {} st \<Longrightarrow>
         \<exists>st'. foldOpt (pass1 depth bg) vs st = Some st' \<and> good1 bg {} st' \<and>
               set vs \<subseteq> fst ` set (snd st') \<and> fst ` set (snd st) \<subseteq> fst ` set (snd st')"
proof (induction vs arbitrary: st)
  case Nil
  then show ?case by simp
next
  case (Cons v vs)
  have "card (anc bg v) \<le> card (set (bnodes bg))"
    by (rule card_mono[OF _ anc_nodes[OF wf]]) simp
  also have "\<dots> \<le> length (bnodes bg)" by (rule card_length)
  finally have c: "card (anc bg v) < depth" using depth by simp
  from pass1_spec[OF wf ac Cons.prems _ c] obtain st1 where
    1: "pass1 depth bg v st = Some st1" "good1 bg {} st1" "v \<in> fst ` set (snd st1)"
      "map_of (snd st) \<subseteq>\<^sub>m map_of (snd st1)"
    by blast
  from Cons.IH[OF 1(2)] obtain st' where
    2: "foldOpt (pass1 depth bg) vs st1 = Some st'" "good1 bg {} st'"
      "set vs \<subseteq> fst ` set (snd st')" "fst ` set (snd st1) \<subseteq> fst ` set (snd st')"
    by blast
  have k: "fst ` set (snd st) \<subseteq> fst ` set (snd st1)"
    using 1(4) by (rule map_le_keys)
  have res: "foldOpt (pass1 depth bg) (v # vs) st = Some st'" by (simp add: 1(1) 2(1))
  have sub: "set (v # vs) \<subseteq> fst ` set (snd st')" using 1(3) 2(3,4) by auto
  have "fst ` set (snd st) \<subseteq> fst ` set (snd st')" using k 2(4) by (rule subset_trans)
  with res 2(2) sub show ?case by blast
qed

definition desc :: "blockGraph \<Rightarrow> vertex \<Rightarrow> vertex set" where
  "desc bg v = {b. (v, b) \<in> (edgeRel bg)\<^sup>+}"

lemma desc_nodes:
  assumes "wfBlockGraph bg"
  shows "desc bg v \<subseteq> set (bnodes bg)"
proof
  fix b assume "b \<in> desc bg v"
  then obtain z where "(z, b) \<in> edgeRel bg" unfolding desc_def by (auto dest!: tranclD2)
  with assms show "b \<in> set (bnodes bg)" unfolding wfBlockGraph_def edgeRel_def by force
qed

lemma finite_desc: "wfBlockGraph bg \<Longrightarrow> finite (desc bg v)"
  by (rule finite_subset[OF desc_nodes]) simp_all

lemma desc_less:
  assumes "wfBlockGraph bg" and "acyclic (edgeRel bg)" and "(v, b) \<in> edgeRel bg"
  shows "card (desc bg b) < card (desc bg v)"
proof (rule psubset_card_mono[OF finite_desc[OF assms(1)]])
  have "desc bg b \<subseteq> desc bg v"
    unfolding desc_def using assms(3) by (auto intro: trancl_into_trancl2)
  moreover have "b \<in> desc bg v" unfolding desc_def using assms(3) by auto
  moreover have "b \<notin> desc bg b" unfolding desc_def using assms(2) by (auto simp: acyclic_def)
  ultimately show "desc bg b \<subset> desc bg v" by blast
qed

text \<open>The state of the second sweep: every node has been visited once or twice and has a
  coordinate, and every edge is separated.\<close>

definition good2 :: "blockGraph \<Rightarrow> sweep \<Rightarrow> bool" where
  "good2 bg st \<longleftrightarrow>
     (\<forall>v\<in>set (bnodes bg). fst st v = Some 1 \<or> fst st v = Some 2) \<and>
     set (bnodes bg) \<subseteq> fst ` set (snd st) \<and>
     (\<forall>e\<in>edgeRel bg.
        \<exists>xa xb w. map_of (snd st) (fst e) = Some xa \<and> map_of (snd st) (snd e) = Some xb \<and>
           edge bg e = Some w \<and> xa + w \<le> xb)"

lemma good2_D:
  assumes "good2 bg st"
  shows "set (bnodes bg) \<subseteq> fst ` set (snd st)"
    and "v \<in> set (bnodes bg) \<Longrightarrow> fst st v = Some 1 \<or> fst st v = Some 2"
    and "e \<in> edgeRel bg \<Longrightarrow> \<exists>xa xb w. map_of (snd st) (fst e) = Some xa \<and>
           map_of (snd st) (snd e) = Some xb \<and> edge bg e = Some w \<and> xa + w \<le> xb"
proof -
  from assms have a: "\<forall>v\<in>set (bnodes bg). fst st v = Some 1 \<or> fst st v = Some 2"
    and b: "set (bnodes bg) \<subseteq> fst ` set (snd st)"
    and c: "\<forall>e\<in>edgeRel bg.
        \<exists>xa xb w. map_of (snd st) (fst e) = Some xa \<and> map_of (snd st) (snd e) = Some xb \<and>
           edge bg e = Some w \<and> xa + w \<le> xb"
    unfolding good2_def by blast+
  show "set (bnodes bg) \<subseteq> fst ` set (snd st)" by (rule b)
  show "v \<in> set (bnodes bg) \<Longrightarrow> fst st v = Some 1 \<or> fst st v = Some 2"
    using a by (rule bspec)
  show "e \<in> edgeRel bg \<Longrightarrow> \<exists>xa xb w. map_of (snd st) (fst e) = Some xa \<and>
           map_of (snd st) (snd e) = Some xb \<and> edge bg e = Some w \<and> xa + w \<le> xb"
    using c by (rule bspec)
qed

definition xsLe :: "real obj \<Rightarrow> real obj \<Rightarrow> bool" where
  "xsLe xs xs' \<longleftrightarrow> (\<forall>u x. map_of xs u = Some x \<longrightarrow> (\<exists>x'. map_of xs' u = Some x' \<and> x \<le> x'))"

lemma xsLe_refl: "xsLe xs xs"
  by (auto simp: xsLe_def)

lemma xsLe_trans: "xsLe a b \<Longrightarrow> xsLe b c \<Longrightarrow> xsLe a c"
  unfolding xsLe_def by (meson order_trans)

lemma edge_nodes:
  assumes "wfBlockGraph bg" and "e \<in> edgeRel bg"
  shows "fst e \<in> set (bnodes bg)" "snd e \<in> set (bnodes bg)"
  using assms unfolding wfBlockGraph_def edgeRel_def by auto

lemma pass2Edge_fold:
  assumes wf: "wfBlockGraph bg"
    and rec: "\<And>b st. (v, b) \<in> edgeRel bg \<Longrightarrow> good2 bg st \<Longrightarrow>
            \<exists>st'. rec b st = Some st' \<and> good2 bg st' \<and> xsLe (snd st) (snd st')"
  shows "set es \<subseteq> {e \<in> edgeRel bg. fst e = v} \<Longrightarrow> good2 bg st \<Longrightarrow>
         \<exists>mn' st'. foldOpt (pass2Edge rec bg) es (mn, st) = Some (mn', st') \<and>
            good2 bg st' \<and> xsLe (snd st) (snd st') \<and>
            (\<forall>m. mn = Some m \<longrightarrow> (\<exists>m'. mn' = Some m' \<and> m' \<le> m)) \<and>
            (\<forall>e\<in>set es. \<exists>m' xb w. mn' = Some m' \<and> map_of (snd st') (snd e) = Some xb \<and>
                 edge bg e = Some w \<and> m' \<le> xb - w)"
proof (induction es arbitrary: mn st)
  case Nil
  then show ?case by (simp add: xsLe_refl)
next
  case (Cons e es)
  from Cons.prems(1) have e: "e \<in> edgeRel bg" "fst e = v" by simp_all
  then have vb: "(v, snd e) \<in> edgeRel bg" by (metis prod.collapse)
  from rec[OF vb Cons.prems(2)] obtain st1 where st1: "rec (snd e) st = Some st1"
    "good2 bg st1" "xsLe (snd st) (snd st1)"
    by blast
  have "snd e \<in> fst ` set (snd st1)"
    using edge_nodes(2)[OF wf e(1)] good2_D(1)[OF st1(2)] by (rule subsetD[rotated])
  then obtain x where x: "map_of (snd st1) (snd e) = Some x" by (auto simp: key_iff)
  from edge_Some[OF e(1)] obtain w where w: "edge bg e = Some w" by blast
  define m1 where "m1 = (case mn of None \<Rightarrow> x - w | Some m \<Rightarrow> min m (x - w))"
  have m1: "m1 \<le> x - w" "\<And>m. mn = Some m \<Longrightarrow> m1 \<le> m"
    by (auto simp: m1_def split: option.splits)
  have step: "pass2Edge rec bg e (mn, st) = Some (Some m1, st1)"
    by (simp add: pass2Edge_def st1(1) x w m1_def)
  from Cons.prems(1) have sub: "set es \<subseteq> {e \<in> edgeRel bg. fst e = v}" by simp
  from Cons.IH[OF sub st1(2), of "Some m1"] obtain mn' st' where
    IH: "foldOpt (pass2Edge rec bg) es (Some m1, st1) = Some (mn', st')"
      "good2 bg st'" "xsLe (snd st1) (snd st')"
      "\<forall>m. Some m1 = Some m \<longrightarrow> (\<exists>m'. mn' = Some m' \<and> m' \<le> m)"
      "\<forall>e'\<in>set es. \<exists>m' xb w. mn' = Some m' \<and> map_of (snd st') (snd e') = Some xb \<and>
                 edge bg e' = Some w \<and> m' \<le> xb - w"
    by (elim exE conjE) (rule that)
  from IH(4) obtain m' where m': "mn' = Some m'" "m' \<le> m1" by blast
  have res: "foldOpt (pass2Edge rec bg) (e # es) (mn, st) = Some (mn', st')"
    by (simp add: step IH(1))
  have le: "xsLe (snd st) (snd st')" by (rule xsLe_trans[OF st1(3) IH(3)])
  from IH(3) x obtain x' where x': "map_of (snd st') (snd e) = Some x'" "x \<le> x'"
    unfolding xsLe_def by blast
  have mono: "\<exists>m''. mn' = Some m'' \<and> m'' \<le> m" if "mn = Some m" for m
    using m' m1(2)[OF that] by auto
  have all: "\<exists>m' xb w. mn' = Some m' \<and> map_of (snd st') (snd e') = Some xb \<and>
                 edge bg e' = Some w \<and> m' \<le> xb - w"
    if "e' \<in> set (e # es)" for e'
  proof (cases "e' = e")
    case True
    have "m' \<le> x' - w" using m'(2) m1(1) x'(2) by linarith
    then show ?thesis using True m'(1) x'(1) w by blast
  next
    case False
    with that have "e' \<in> set es" by simp
    with IH(5) show ?thesis by (rule bspec)
  qed
  have c4: "\<forall>m. mn = Some m \<longrightarrow> (\<exists>m'. mn' = Some m' \<and> m' \<le> m)"
    by (intro allI impI) (rule mono)
  have c5: "\<forall>e\<in>set (e # es). \<exists>m' xb w. mn' = Some m' \<and> map_of (snd st') (snd e) = Some xb \<and>
                 edge bg e = Some w \<and> m' \<le> xb - w"
    by (intro ballI) (rule all)
  show ?case
    by (intro exI[of _ mn'] exI[of _ st'] conjI res IH(2) le c4 c5)
qed

lemma pass2_spec:
  assumes wf: "wfBlockGraph bg" and ac: "acyclic (edgeRel bg)"
  shows "good2 bg st \<Longrightarrow> v \<in> set (bnodes bg) \<Longrightarrow> card (desc bg v) < n \<Longrightarrow>
         \<exists>st'. pass2 n g bg bType v st = Some st' \<and> good2 bg st' \<and> xsLe (snd st) (snd st')"
proof (induction n arbitrary: v st)
  case 0
  then show ?case by simp
next
  case (Suc n)
  note good = Suc.prems(1)
  from good2_D(2)[OF good Suc.prems(2)] consider "fst st v = Some 1" | "fst st v = Some 2"
    by blast
  then show ?case
  proof cases
    case 2
    then show ?thesis using good by (simp add: xsLe_refl)
  next
    case 1
    let ?st1 = "((fst st)(v \<mapsto> 1 + 1), snd st)"
    have good1: "good2 bg ?st1"
    proof -
      have "\<forall>u\<in>set (bnodes bg). fst ?st1 u = Some 1 \<or> fst ?st1 u = Some 2"
        using good2_D(2)[OF good] by simp
      moreover have "set (bnodes bg) \<subseteq> fst ` set (snd ?st1)"
        using good2_D(1)[OF good] by simp
      moreover have "\<forall>e\<in>edgeRel bg.
        \<exists>xa xb w. map_of (snd ?st1) (fst e) = Some xa \<and> map_of (snd ?st1) (snd e) = Some xb \<and>
           edge bg e = Some w \<and> xa + w \<le> xb"
        unfolding snd_conv using good2_D(3)[OF good] by (intro ballI)
      ultimately show ?thesis unfolding good2_def by (intro conjI)
    qed
    have rec: "\<exists>st'. pass2 n g bg bType b st0 = Some st' \<and> good2 bg st' \<and> xsLe (snd st0) (snd st')"
      if vb: "(v, b) \<in> edgeRel bg" and g0: "good2 bg st0" for b st0
    proof (rule Suc.IH[OF g0])
      show "b \<in> set (bnodes bg)" using edge_nodes(2)[OF wf vb] by simp
      from desc_less[OF wf ac vb] Suc.prems(3) show "card (desc bg b) < n" by simp
    qed
    have sub: "set (outEdges bg v) \<subseteq> {e \<in> edgeRel bg. fst e = v}" by (simp add: set_outEdges)
    have "\<exists>mn' st'. foldOpt (pass2Edge (pass2 n g bg bType) bg) (outEdges bg v) (None, ?st1)
              = Some (mn', st') \<and>
            good2 bg st' \<and> xsLe (snd ?st1) (snd st') \<and>
            (\<forall>m. None = Some m \<longrightarrow> (\<exists>m'. mn' = Some m' \<and> m' \<le> m)) \<and>
            (\<forall>e\<in>set (outEdges bg v). \<exists>m' xb w. mn' = Some m' \<and>
                 map_of (snd st') (snd e) = Some xb \<and> edge bg e = Some w \<and> m' \<le> xb - w)"
    proof (rule pass2Edge_fold[OF wf _ sub good1])
      fix b st0 assume "(v, b) \<in> edgeRel bg" "good2 bg st0"
      then show "\<exists>st'. pass2 n g bg bType b st0 = Some st' \<and> good2 bg st' \<and>
          xsLe (snd st0) (snd st')" by (rule rec)
    qed
    then obtain mn stf where f:
      "foldOpt (pass2Edge (pass2 n g bg bType) bg) (outEdges bg v) (None, ?st1) = Some (mn, stf)"
      "good2 bg stf" "xsLe (snd ?st1) (snd stf)"
      "\<forall>e\<in>set (outEdges bg v). \<exists>m' xb w. mn = Some m' \<and>
          map_of (snd stf) (snd e) = Some xb \<and> edge bg e = Some w \<and> m' \<le> xb - w"
      by (elim exE conjE) (rule that)
    have le0: "xsLe (snd st) (snd stf)" using f(3) by simp
    show ?thesis
    proof (cases mn)
      case None
      then have "pass2 (Suc n) g bg bType v st = Some stf"
        using 1 f(1) by simp
      then show ?thesis using f(2) le0 by blast
    next
      case (Some m)
      show ?thesis
      proof (cases "borderType (node g v) \<noteq> Some bType")
        case False
        then have "pass2 (Suc n) g bg bType v st = Some stf"
          using 1 f(1) Some by simp
        then show ?thesis using f(2) le0 by blast
      next
        case True
        have "v \<in> fst ` set (snd stf)"
          using Suc.prems(2) good2_D(1)[OF f(2)] by (rule subsetD[rotated])
        then obtain x where x: "map_of (snd stf) v = Some x" by (auto simp: key_iff)
        let ?res = "(fst stf, AList.update v (max x m) (snd stf))"
        have res: "pass2 (Suc n) g bg bType v st = Some ?res"
          using 1 f(1) Some True x by simp
        have noloop: "fst e \<noteq> snd e" if "e \<in> edgeRel bg" for e
        proof
          assume "fst e = snd e"
          with that have "(fst e, fst e) \<in> edgeRel bg" by (metis prod.collapse)
          with ac show False unfolding acyclic_def by blast
        qed
        have g1: "\<forall>u\<in>set (bnodes bg). fst ?res u = Some 1 \<or> fst ?res u = Some 2"
          using good2_D(2)[OF f(2)] by simp
        have g2: "set (bnodes bg) \<subseteq> fst ` set (snd ?res)"
          using good2_D(1)[OF f(2)] by (auto simp: fst_set_update)
        have g3: "\<exists>xa xb w. map_of (snd ?res) (fst e) = Some xa \<and>
            map_of (snd ?res) (snd e) = Some xb \<and> edge bg e = Some w \<and> xa + w \<le> xb"
          if e: "e \<in> edgeRel bg" for e
        proof -
          from good2_D(3)[OF f(2) e] obtain xa xb w where old: "map_of (snd stf) (fst e) = Some xa"
            "map_of (snd stf) (snd e) = Some xb" "edge bg e = Some w" "xa + w \<le> xb"
            by blast
          consider "fst e = v" | "snd e = v" "fst e \<noteq> v" | "fst e \<noteq> v" "snd e \<noteq> v" by blast
          then show ?thesis
          proof cases
            case 1
            then have "e \<in> set (outEdges bg v)" using e by (simp add: set_outEdges)
            from f(4)[rule_format, OF this] Some old(2,3) have "m \<le> xb - w" by auto
            moreover have "xa = x" using old(1) 1 x by simp
            ultimately have "max x m + w \<le> xb" using old(4) by simp
            moreover have "snd e \<noteq> v" using noloop[OF e] 1 by simp
            ultimately show ?thesis using 1 old by (simp add: update_conv')
          next
            case 2
            then have "xb = x" using old(2) x by simp
            then have "xa + w \<le> max x m" using old(4) by simp
            then show ?thesis using 2 old by (simp add: update_conv')
          next
            case 3
            then show ?thesis using old by (simp add: update_conv')
          qed
        qed
        have good': "good2 bg ?res"
          unfolding good2_def using g1 g2 g3 by blast
        have "xsLe (snd stf) (snd ?res)"
          unfolding xsLe_def using x by (auto simp: update_conv')
        with le0 have "xsLe (snd st) (snd ?res)" by (rule xsLe_trans)
        with res good' show ?thesis by blast
      qed
    qed
  qed
qed

lemma set_js_keys [simp]: "set (js_keys obj) = fst ` set obj"
  by (simp add: js_keys_def)

lemma set_js_values [simp]: "set (js_values obj) = snd ` set obj"
  by (simp add: js_values_def)

lemma set_graphNodes [simp]: "set (graphNodes bg) = set (bnodes bg)"
  by (auto simp: graphNodes_def image_iff)

lemma pass2_all:
  assumes wf: "wfBlockGraph bg" and ac: "acyclic (edgeRel bg)"
    and depth: "length (bnodes bg) < depth"
  shows "good2 bg st \<Longrightarrow> set vs \<subseteq> set (bnodes bg) \<Longrightarrow>
         \<exists>st'. foldOpt (pass2 depth g bg bType) vs st = Some st' \<and> good2 bg st'"
proof (induction vs arbitrary: st)
  case Nil
  then show ?case by simp
next
  case (Cons v vs)
  have "card (desc bg v) \<le> card (set (bnodes bg))"
    by (rule card_mono[OF _ desc_nodes[OF wf]]) simp
  also have "\<dots> \<le> length (bnodes bg)" by (rule card_length)
  finally have c: "card (desc bg v) < depth" using depth by simp
  from Cons.prems(2) have v: "v \<in> set (bnodes bg)" and vs: "set vs \<subseteq> set (bnodes bg)"
    by simp_all
  from pass2_spec[OF wf ac Cons.prems(1) v c, of g bType] obtain st1 where
    1: "pass2 depth g bg bType v st = Some st1" "good2 bg st1"
    by blast
  from Cons.IH[OF 1(2) vs] obtain st' where
    2: "foldOpt (pass2 depth g bg bType) vs st1 = Some st'" "good2 bg st'"
    by blast
  have "foldOpt (pass2 depth g bg bType) (v # vs) st = Some st'" by (simp add: 1(1) 2(1))
  with 2(2) show ?case by blast
qed

lemma good1_good2:
  assumes wf: "wfBlockGraph bg" and g: "good1 bg {} st"
    and all: "set (bnodes bg) \<subseteq> fst ` set (snd st)"
  shows "good2 bg st"
proof -
  from g have d: "dom (fst st) = fst ` set (snd st)"
    and one: "\<And>u c. fst st u = Some c \<Longrightarrow> c = 1"
    and sepd: "\<And>e. e \<in> edgeRel bg \<Longrightarrow> snd e \<in> fst ` set (snd st) \<Longrightarrow>
        \<exists>xa xb w. map_of (snd st) (fst e) = Some xa \<and> map_of (snd st) (snd e) = Some xb \<and>
           edge bg e = Some w \<and> xa + w \<le> xb"
    unfolding good1_def by blast+
  have a: "fst st v = Some 1 \<or> fst st v = Some 2" if "v \<in> set (bnodes bg)" for v
  proof -
    from that all d have "v \<in> dom (fst st)" by blast
    then obtain c where "fst st v = Some c" by blast
    with one[OF this] show ?thesis by simp
  qed
  have c: "\<exists>xa xb w. map_of (snd st) (fst e) = Some xa \<and> map_of (snd st) (snd e) = Some xb \<and>
           edge bg e = Some w \<and> xa + w \<le> xb" if "e \<in> edgeRel bg" for e
    using sepd[OF that] edge_nodes(2)[OF wf that] all by blast
  show ?thesis unfolding good2_def using a all c by blast
qed

text \<open>The last loop copies the coordinate of its root to every value of \<open>align\<close>.\<close>

lemma assignRoot_fold:
  fixes root :: "vertex obj"
  assumes roots: "\<And>a. a \<in> set vals \<Longrightarrow>
      \<exists>r. map_of root a = Some r \<and> map_of root r = Some r \<and> map_of xs0 r \<noteq> None"
  shows "set vs \<subseteq> set vals \<Longrightarrow>
     (\<And>a r. a \<in> set vals \<Longrightarrow> map_of root a = Some r \<Longrightarrow> map_of xs r = map_of xs0 r) \<Longrightarrow>
     (\<And>a r. a \<in> P \<Longrightarrow> map_of root a = Some r \<Longrightarrow> map_of xs a = map_of xs0 r) \<Longrightarrow>
     (\<And>u. map_of xs0 u \<noteq> None \<Longrightarrow> map_of xs u \<noteq> None) \<Longrightarrow>
     \<exists>xs'. foldOpt (assignRoot root) vs xs = Some xs' \<and>
       (\<forall>a r. a \<in> P \<union> set vs \<longrightarrow> map_of root a = Some r \<longrightarrow> map_of xs' a = map_of xs0 r) \<and>
       (\<forall>a r. a \<in> set vals \<longrightarrow> map_of root a = Some r \<longrightarrow> map_of xs' r = map_of xs0 r) \<and>
       (\<forall>u. map_of xs0 u \<noteq> None \<longrightarrow> map_of xs' u \<noteq> None)"
proof (induction vs arbitrary: xs P)
  case Nil
  then show ?case by simp
next
  case (Cons a vs)
  from Cons.prems(1) have a: "a \<in> set vals" and vs: "set vs \<subseteq> set vals" by simp_all
  from roots[OF a] obtain r x where r: "map_of root a = Some r" "map_of root r = Some r"
    "map_of xs0 r = Some x" by blast
  have xr: "map_of xs r = Some x" using Cons.prems(2)[OF a r(1)] r(3) by simp
  let ?xs1 = "AList.update a x xs"
  have step: "assignRoot root a xs = Some ?xs1"
    by (simp add: assignRoot_def r(1) xr)
  have J: "map_of ?xs1 r' = map_of xs0 r'" if "a' \<in> set vals" "map_of root a' = Some r'" for a' r'
  proof (cases "r' = a")
    case True
    from roots[OF that(1)] that(2) have "map_of root r' = Some r'" by auto
    with True r(1) have "r = a" by simp
    then show ?thesis using True r(3) by (simp add: update_conv')
  next
    case False
    then show ?thesis using Cons.prems(2)[OF that] by (simp add: update_conv')
  qed
  have K: "map_of ?xs1 a' = map_of xs0 r'" if "a' \<in> insert a P" "map_of root a' = Some r'" for a' r'
  proof (cases "a' = a")
    case True
    then show ?thesis using that(2) r(1,3) by (simp add: update_conv')
  next
    case False
    with that(1) have "a' \<in> P" by simp
    from Cons.prems(3)[OF this that(2)] False show ?thesis by (simp add: update_conv')
  qed
  have D: "map_of ?xs1 u \<noteq> None" if "map_of xs0 u \<noteq> None" for u
    using Cons.prems(4)[OF that] by (simp add: update_conv')
  have "\<exists>xs'. foldOpt (assignRoot root) vs ?xs1 = Some xs' \<and>
       (\<forall>a' r. a' \<in> insert a P \<union> set vs \<longrightarrow> map_of root a' = Some r \<longrightarrow>
          map_of xs' a' = map_of xs0 r) \<and>
       (\<forall>a r. a \<in> set vals \<longrightarrow> map_of root a = Some r \<longrightarrow> map_of xs' r = map_of xs0 r) \<and>
       (\<forall>u. map_of xs0 u \<noteq> None \<longrightarrow> map_of xs' u \<noteq> None)"
  proof (rule Cons.IH[where xs = ?xs1 and P = "insert a P"])
    show "set vs \<subseteq> set vals" by (rule vs)
  next
    fix a' r' assume "a' \<in> set vals" "map_of root a' = Some r'"
    then show "map_of ?xs1 r' = map_of xs0 r'" by (rule J)
  next
    fix a' r' assume "a' \<in> insert a P" "map_of root a' = Some r'"
    then show "map_of ?xs1 a' = map_of xs0 r'" by (rule K)
  next
    fix u assume "map_of xs0 u \<noteq> None"
    then show "map_of ?xs1 u \<noteq> None" by (rule D)
  qed
  then obtain xs' where
    IH: "foldOpt (assignRoot root) vs ?xs1 = Some xs'"
      "\<forall>a' r. a' \<in> insert a P \<union> set vs \<longrightarrow> map_of root a' = Some r \<longrightarrow> map_of xs' a' = map_of xs0 r"
      "\<forall>a r. a \<in> set vals \<longrightarrow> map_of root a = Some r \<longrightarrow> map_of xs' r = map_of xs0 r"
      "\<forall>u. map_of xs0 u \<noteq> None \<longrightarrow> map_of xs' u \<noteq> None"
    by (elim exE conjE) (rule that)
  have res: "foldOpt (assignRoot root) (a # vs) xs = Some xs'" by (simp add: step IH(1))
  have c1: "\<forall>a' r. a' \<in> P \<union> set (a # vs) \<longrightarrow> map_of root a' = Some r \<longrightarrow>
      map_of xs' a' = map_of xs0 r"
    using IH(2) by simp
  show ?case
    by (intro exI[of _ xs'] conjI res c1 IH(3) IH(4))
qed

lemma edge_edgeRel: "edge bg e = Some w \<Longrightarrow> e \<in> edgeRel bg"
proof -
  assume "edge bg e = Some w"
  then have "(e, w) \<in> set (bedges bg)" unfolding edge_def by (rule map_of_SomeD)
  then have "fst (e, w) \<in> fst ` set (bedges bg)" by (rule imageI)
  then show ?thesis by (simp add: edgeRel_def)
qed

text \<open>The separation between the vertices of a layer in the coordinates \<open>xs\<close>.\<close>

definition separated ::
  "graph \<Rightarrow> bool \<Rightarrow> vertex list list \<Rightarrow> real obj \<Rightarrow> bool" where
  "separated g reverseSep layering xs \<longleftrightarrow>
     (\<forall>layer\<in>set layering. \<forall>i. Suc i < length layer \<longrightarrow>
        (case (map_of xs (layer ! i), map_of xs (layer ! Suc i)) of
           (Some xu, Some xv) \<Rightarrow>
             xv - xu \<ge> sep (nodesep (graph_label g)) (edgesep (graph_label g)) reverseSep g
                          (layer ! Suc i) (layer ! i)
         | _ \<Rightarrow> False))"

lemma horizontalCompaction_sound:
  fixes root :: "vertex obj"
  assumes rooted: "\<And>v. v \<in> set (concat layering) \<Longrightarrow>
      \<exists>r. map_of root v = Some r \<and> map_of root r = Some r"
    and vals: "set (js_values align) = set (concat layering)"
    and ac: "\<And>bg. buildBlockGraph g layering root reverseSep = Some bg \<Longrightarrow>
      acyclic (edgeRel bg)"
    and ne: "[] \<notin> set (concat layering)"
  shows "\<exists>xs. horizontalCompaction g layering root align reverseSep = Some xs \<and>
           separated g reverseSep layering xs"
proof -
  let ?sepFn = "sep (nodesep (graph_label g)) (edgesep (graph_label g)) reverseSep"
  have def: "map_of root v \<noteq> None" if "v \<in> set (concat layering)" for v
    using rooted[OF that] by auto
  have "\<exists>bg. buildBlockGraph g layering root reverseSep = Some bg \<and> wfBlockGraph bg \<and>
         (\<forall>v\<in>set (concat layering). \<exists>rv. map_of root v = Some rv \<and> rv \<in> set (bnodes bg)) \<and>
         (\<forall>layer\<in>set layering. \<forall>a b. adjacentIn layer a b \<longrightarrow> a \<noteq> [] \<longrightarrow>
            sepEdge g ?sepFn root bg a b)"
  proof (rule buildBlockGraph_spec)
    fix v assume "v \<in> set (concat layering)"
    then show "map_of root v \<noteq> None" by (rule def)
  qed
  then obtain bg where
    bg: "buildBlockGraph g layering root reverseSep = Some bg" and wf: "wfBlockGraph bg"
    and inb: "\<forall>v\<in>set (concat layering). \<exists>rv. map_of root v = Some rv \<and> rv \<in> set (bnodes bg)"
    and se: "\<forall>layer\<in>set layering. \<forall>a b. adjacentIn layer a b \<longrightarrow> a \<noteq> [] \<longrightarrow>
               sepEdge g ?sepFn root bg a b"
    by (elim exE conjE) (rule that)
  have acb: "acyclic (edgeRel bg)" by (rule ac[OF bg])
  let ?depth = "Suc (length (bnodes bg))"
  have depth: "length (bnodes bg) < ?depth" by simp
  from pass1_all[OF wf acb depth good1_init, of "graphNodes bg"] obtain st1 where
    p1: "foldOpt (pass1 ?depth bg) (graphNodes bg) (Map.empty, []) = Some st1"
    and g1: "good1 bg {} st1" and k1: "set (graphNodes bg) \<subseteq> fst ` set (snd st1)"
    by (elim exE conjE) (rule that)
  have k1': "set (bnodes bg) \<subseteq> fst ` set (snd st1)" using k1 by simp
  have g2: "good2 bg st1" by (rule good1_good2[OF wf g1 k1'])
  let ?bType = "if reverseSep then ''borderLeft'' else ''borderRight''"
  have sub: "set (graphNodes bg) \<subseteq> set (bnodes bg)" by simp
  from pass2_all[OF wf acb depth g2 sub, of g ?bType] obtain st2 where
    p2: "foldOpt (pass2 ?depth g bg ?bType) (graphNodes bg) st1 = Some st2"
    and g2': "good2 bg st2"
    by (elim exE conjE) (rule that)
  note G = good2_D[OF g2']
  have roots: "\<exists>r. map_of root a = Some r \<and> map_of root r = Some r \<and> map_of (snd st2) r \<noteq> None"
    if "a \<in> set (js_values align)" for a
  proof -
    from that vals have a: "a \<in> set (concat layering)" by simp
    from rooted[OF a] obtain r where r: "map_of root a = Some r" "map_of root r = Some r"
      by blast
    from inb[rule_format, OF a] obtain rv where "map_of root a = Some rv" "rv \<in> set (bnodes bg)"
      by (elim exE conjE) (rule that)
    with r(1) have "r \<in> set (bnodes bg)" by simp
    with G(1) have "r \<in> fst ` set (snd st2)" by blast
    then have "map_of (snd st2) r \<noteq> None" by (simp add: key_iff)
    with r show ?thesis by blast
  qed
  have "\<exists>xs'. foldOpt (assignRoot root) (js_values align) (snd st2) = Some xs' \<and>
       (\<forall>a r. a \<in> {} \<union> set (js_values align) \<longrightarrow> map_of root a = Some r \<longrightarrow>
          map_of xs' a = map_of (snd st2) r) \<and>
       (\<forall>a r. a \<in> set (js_values align) \<longrightarrow> map_of root a = Some r \<longrightarrow>
          map_of xs' r = map_of (snd st2) r) \<and>
       (\<forall>u. map_of (snd st2) u \<noteq> None \<longrightarrow> map_of xs' u \<noteq> None)"
  proof (rule assignRoot_fold[where vals = "js_values align" and P = "{}" and xs0 = "snd st2"])
    fix a assume "a \<in> set (js_values align)"
    then show "\<exists>r. map_of root a = Some r \<and> map_of root r = Some r \<and> map_of (snd st2) r \<noteq> None"
      by (rule roots)
  qed simp_all
  then obtain xs where
    p3: "foldOpt (assignRoot root) (js_values align) (snd st2) = Some xs"
    and val: "\<forall>a r. a \<in> {} \<union> set (js_values align) \<longrightarrow> map_of root a = Some r \<longrightarrow>
          map_of xs a = map_of (snd st2) r"
    by (elim exE conjE) (rule that)
  have res: "horizontalCompaction g layering root align reverseSep = Some xs"
    unfolding horizontalCompaction_def by (simp add: bg Let_def p1 p2 p3)
  have xval: "map_of xs a = map_of (snd st2) r"
    if "a \<in> set (concat layering)" "map_of root a = Some r" for a r
    using val that vals by simp
  have "separated g reverseSep layering xs"
    unfolding separated_def
  proof (intro ballI allI impI)
    fix layer i assume layer: "layer \<in> set layering" and i: "Suc i < length layer"
    let ?u = "layer ! i" and ?v = "layer ! Suc i"
    have adj: "adjacentIn layer ?u ?v" by (rule adjacentIn_nth[OF i])
    have "?u \<in> set layer" "?v \<in> set layer" using i by simp_all
    with layer have u: "?u \<in> set (concat layering)" and v: "?v \<in> set (concat layering)"
      by auto
    from ne u have une: "?u \<noteq> []" by auto
    from se layer adj une have "sepEdge g ?sepFn root bg ?u ?v" by blast
    then obtain ru rv w where r: "map_of root ?u = Some ru" "map_of root ?v = Some rv"
      "edge bg (ru, rv) = Some w" "?sepFn g ?v ?u \<le> w"
      unfolding sepEdge_def by blast
    from G(3)[OF edge_edgeRel[OF r(3)]] r(3) obtain xa xb where
      x: "map_of (snd st2) ru = Some xa" "map_of (snd st2) rv = Some xb" "xa + w \<le> xb"
      by auto
    have xu: "map_of xs ?u = Some xa" using xval[OF u r(1)] x(1) by simp
    have xv: "map_of xs ?v = Some xb" using xval[OF v r(2)] x(2) by simp
    show "case (map_of xs ?u, map_of xs ?v) of
           (Some xu, Some xv) \<Rightarrow> ?sepFn g ?v ?u \<le> xv - xu | _ \<Rightarrow> False"
      using r(4) x(3) by (simp add: xu xv)
  qed
  with res show ?thesis by blast
qed

text \<open>The hypotheses hold of S2, where both vertices are their own blocks.\<close>

lemma s2_blockGraph:
  "buildBlockGraph s2_graph [[''a'', ''b'']] [(''a'', ''a''), (''b'', ''b'')] False =
     Some \<lparr>bnodes = [''a'', ''b''], bedges = [((''a'', ''b''), 100)]\<rparr>"
  by code_simp

lemma horizontalCompaction_sound_witness:
  "\<exists>xs. horizontalCompaction s2_graph [[''a'', ''b'']] [(''a'', ''a''), (''b'', ''b'')]
          [(''a'', ''a''), (''b'', ''b'')] False = Some xs \<and>
        separated s2_graph False [[''a'', ''b'']] xs"
proof (rule horizontalCompaction_sound)
  fix v :: vertex
  assume "v \<in> set (concat [[''a'', ''b'']])"
  then have "v = ''a'' \<or> v = ''b''" by simp
  then show "\<exists>r. map_of [(''a'', ''a''), (''b'', ''b'')] v = Some r \<and>
                 map_of [(''a'', ''a''), (''b'', ''b'')] r = Some r"
    by (elim disjE) simp_all
next
  show "set (js_values [(''a'', ''a''), (''b'', ''b'')]) = set (concat [[''a'', ''b'']])"
    by (simp add: js_entries_def)
next
  fix bg
  assume "buildBlockGraph s2_graph [[''a'', ''b'']] [(''a'', ''a''), (''b'', ''b'')] False =
            Some bg"
  then have "bg = \<lparr>bnodes = [''a'', ''b''], bedges = [((''a'', ''b''), 100)]\<rparr>"
    by (simp add: s2_blockGraph)
  then show "acyclic (edgeRel bg)"
    by (simp add: edgeRel_def acyclic_insert acyclic_def[of "{}"])
next
  show "[] \<notin> set (concat [[''a'', ''b'']])" by simp
qed

lemma e_verticalAlignment:
  "verticalAlignment e_graph [[[], ''b'']] Map.empty (predecessors e_graph) =
     ([([], []), (''b'', ''b'')], [([], []), (''b'', ''b'')])"
  by (simp add: verticalAlignment_def initAlignment_def initVertex_def
      alignLayer_def alignVertex_def e_graph_def sortByPos_def alignStep_def enumerate_eq_zip)

text \<open>
  C1: after \<open>horizontalCompaction\<close>, a vertex and its left neighbour in a layer are at least
  \<open>sep\<close> apart.  \<open>horizontalCompaction_sound\<close> shows this when no vertex id is the empty
  string.  \<open>buildBlockGraph\<close> tests the left neighbour with \<open>if (u)\<close>, which is false of the
  id \<open>""\<close>: no edge is added after such a vertex.  For the layer \<open>["", "b"]\<close>, with the
  \<open>root\<close> and \<open>align\<close> that \<open>verticalAlignment\<close> returns (\<open>e_verticalAlignment\<close>), both
  vertices get the coordinate 0, while \<open>sep\<close> asks for 100 between them.
\<close>

theorem horizontalCompaction_empty_id:
  "horizontalCompaction e_graph [[[], ''b'']] [([], []), (''b'', ''b'')]
     [([], []), (''b'', ''b'')] False = Some [([], 0), (''b'', 0)] \<and>
   sep 50 10 False e_graph ''b'' [] = 100"
proof
  show "horizontalCompaction e_graph [[[], ''b'']] [([], []), (''b'', ''b'')]
     [([], []), (''b'', ''b'')] False = Some [([], 0), (''b'', 0)]"
    by code_simp
  show "sep 50 10 False e_graph ''b'' [] = 100"
    by (simp add: sep_def e_graph_def e_label_def)
qed



subsection \<open>\<open>balance\<close> and \<open>positionX\<close>\<close>

lemma positionX_aligned:
  "positionX g =
     (case aligned g of Inl e \<Rightarrow> Inl e | Inr xss \<Rightarrow> balance xss (graphAlign (graph_label g)))"
  by (simp add: positionX_def aligned_def split: sum.splits)

lemma s2_aligned:
  "aligned s2_graph =
     Inr [(''ul'', [(''a'', 0), (''b'', 100)]), (''ur'', [(''b'', 100), (''a'', 0)]),
          (''dl'', [(''a'', 0), (''b'', 100)]), (''dr'', [(''b'', 100), (''a'', 0)])]"
  by code_simp

lemma alignCoordinate_cases:
  "alignCoordinate alignTo vert horiz xss = xss \<or>
   (\<exists>xs ys. map_of xss (vert @ horiz) = Some xs \<and>
      alignCoordinate alignTo vert horiz xss = AList.update (vert @ horiz) ys xss)"
  by (auto simp: alignCoordinate_def Let_def split: option.splits)

lemma keys_alignCoordinate:
  "map fst (alignCoordinate alignTo vert horiz xss) = map fst xss"
proof -
  from alignCoordinate_cases[of alignTo vert horiz xss] show ?thesis
  proof (elim disjE exE conjE)
    assume "alignCoordinate alignTo vert horiz xss = xss"
    then show ?thesis by simp
  next
    fix xs ys
    assume m: "map_of xss (vert @ horiz) = Some xs"
      and u: "alignCoordinate alignTo vert horiz xss = AList.update (vert @ horiz) ys xss"
    from m have "(vert @ horiz, xs) \<in> set xss" by (rule map_of_SomeD)
    then have "fst (vert @ horiz, xs) \<in> fst ` set xss" by (rule imageI)
    then have k: "vert @ horiz \<in> fst ` set xss" by simp
    show ?thesis unfolding u using k by (simp add: update_keys)
  qed
qed

lemma keys_alignCoordinates: "map fst (alignCoordinates xss alignTo) = map fst xss"
  by (simp add: alignCoordinates_def keys_alignCoordinate)

lemma keys_alignments: "alignments g = Inr xss \<Longrightarrow> map fst xss = [''ul'', ''ur'', ''dl'', ''dr'']"
  by (auto simp: alignments_def Let_def split: sum.splits)

lemma keys_aligned:
  assumes "aligned g = Inr xss"
  shows "\<exists>ul ur dl dr. xss = [(''ul'', ul), (''ur'', ur), (''dl'', dl), (''dr'', dr)]"
proof -
  from assms obtain xss0 where a: "alignments g = Inr xss0"
    and x: "xss = alignCoordinates xss0 (findSmallestWidthAlignment g xss0)"
    by (auto simp: aligned_def split: sum.splits)
  have "map fst xss = [''ul'', ''ur'', ''dl'', ''dr'']"
    unfolding x keys_alignCoordinates by (rule keys_alignments[OF a])
  then show ?thesis by (auto simp: map_eq_Cons_conv)
qed

lemma mapValuesE_Inr:
  "(\<And>v. v \<in> set vs \<Longrightarrow> f v = Inr (h v)) \<Longrightarrow> mapValuesE f vs = Inr (map (\<lambda>v. (v, h v)) vs)"
  by (induction vs) simp_all

lemma map_of_tabulate: "map_of (map (\<lambda>v. (v, h v)) vs) v = (if v \<in> set vs then Some (h v) else None)"
  by (induction vs) simp_all

lemma toLowerCase_Nil [simp]: "toLowerCase [] = []"
  by (simp add: toLowerCase_def)

lemma jsInsert_Some: "jsInsert (Some x) (map Some xs) = map Some (insort x xs)"
  by (induction xs) simp_all

lemma sortBy_Some: "sortBy (map Some xs) = map Some (sort xs)"
  unfolding sortBy_def by (induction xs) (simp_all add: jsInsert_Some)

text \<open>The value of \<open>balance\<close> at a vertex when \<open>align\<close> is not set.\<close>

lemma balanceValue_median:
  assumes "align = None \<or> align = Some []"
    and "map_of ul v = Some a" "map_of ur v = Some b" "map_of dl v = Some c" "map_of dr v = Some d"
  shows "balanceValue [(''ul'', ul), (''ur'', ur), (''dl'', dl), (''dr'', dr)] align v =
           Inr (Some ((sort [a, b, c, d] ! 1 + sort [a, b, c, d] ! 2) / 2))"
proof -
  have l: "length (sort [a, b, c, d]) = 4" by (simp only: length_sort) simp
  have "sortBy (map (\<lambda>x. map_of x v) (js_values [(''ul'', ul), (''ur'', ur), (''dl'', dl), (''dr'', dr)]))
        = sortBy (map Some [a, b, c, d])"
    by (simp add: js_values_four assms)
  also have "\<dots> = map Some (sort [a, b, c, d])" by (rule sortBy_Some)
  finally have s: "sortBy (map (\<lambda>x. map_of x v)
      (js_values [(''ul'', ul), (''ur'', ur), (''dl'', dl), (''dr'', dr)])) = map Some (sort [a, b, c, d])" .
  have n1: "jsNth (map Some (sort [a, b, c, d])) 1 = Some (sort [a, b, c, d] ! 1)"
    unfolding jsNth_def using l by simp
  have n2: "jsNth (map Some (sort [a, b, c, d])) 2 = Some (sort [a, b, c, d] ! 2)"
    unfolding jsNth_def using l by simp
  have f: "\<not> (case align of None \<Rightarrow> False | Some a \<Rightarrow> a \<noteq> [])"
    using assms(1) by auto
  show ?thesis
    unfolding balanceValue_def Let_def s n1 n2 using f by simp
qed

lemma balance_named:
  assumes ul: "map_of xss ''ul'' = Some ul"
    and al: "toLowerCase al \<noteq> []" and sel: "map_of xss (toLowerCase al) = Some sel"
  shows "balance xss (Some al) = Inr (map (\<lambda>v. (v, map_of sel v)) (js_keys ul))"
proof -
  have ne: "al \<noteq> []" using al by auto
  have "balanceValue xss (Some al) v = Inr (map_of sel v)" for v
    by (simp add: balanceValue_def ne sel)
  then have "mapValuesE (balanceValue xss (Some al)) (js_keys ul) =
      Inr (map (\<lambda>v. (v, map_of sel v)) (js_keys ul))"
    by (intro mapValuesE_Inr)
  then show ?thesis by (simp add: balance_def ul)
qed

definition medianOf :: "real obj obj \<Rightarrow> vertex \<Rightarrow> real option" where
  "medianOf xss v =
     (let xs = sortBy (map (\<lambda>a. map_of a v) (js_values xss))
      in case (jsNth xs 1, jsNth xs 2) of
           (Some x1, Some x2) \<Rightarrow> Some ((x1 + x2) / 2)
         | _ \<Rightarrow> None)"

lemma balance_unset:
  assumes ul: "map_of xss ''ul'' = Some ul" and al: "align = None \<or> align = Some []"
  shows "balance xss align = Inr (map (\<lambda>v. (v, medianOf xss v)) (js_keys ul))"
proof -
  have f: "\<not> (case align of None \<Rightarrow> False | Some a \<Rightarrow> a \<noteq> [])"
    using al by auto
  have "balanceValue xss align v = Inr (medianOf xss v)" for v
    unfolding balanceValue_def medianOf_def Let_def using f by simp
  then have "mapValuesE (balanceValue xss align) (js_keys ul) =
      Inr (map (\<lambda>v. (v, medianOf xss v)) (js_keys ul))"
    by (intro mapValuesE_Inr)
  then show ?thesis by (simp add: balance_def ul)
qed

lemma medianOf_four:
  assumes "map_of ul v = Some a" "map_of ur v = Some b" "map_of dl v = Some c" "map_of dr v = Some d"
  shows "medianOf [(''ul'', ul), (''ur'', ur), (''dl'', dl), (''dr'', dr)] v =
           Some ((sort [a, b, c, d] ! 1 + sort [a, b, c, d] ! 2) / 2)"
proof -
  have "balanceValue [(''ul'', ul), (''ur'', ur), (''dl'', dl), (''dr'', dr)] None v =
      Inr (medianOf [(''ul'', ul), (''ur'', ur), (''dl'', dl), (''dr'', dr)] v)"
    unfolding balanceValue_def medianOf_def Let_def by simp
  with balanceValue_median[OF _ assms, of None] show ?thesis by simp
qed


text \<open>S2 without \<open>align\<close> and with \<open>align = "UR"\<close>.\<close>

lemma s2_aligned_UR:
  "aligned (s2_graph_aligned ''UR'') =
     Inr [(''ul'', [(''a'', 0), (''b'', 100)]), (''ur'', [(''b'', 100), (''a'', 0)]),
          (''dl'', [(''a'', 0), (''b'', 100)]), (''dr'', [(''b'', 100), (''a'', 0)])]"
  by code_simp



lemma s2_positionX: "positionX s2_graph = Inr [(''a'', Some 0), (''b'', Some 100)]"
  by code_simp

text \<open>
  C8 (scenario S2).  For the two nodes \<open>a\<close> and \<open>b\<close> on rank 0 with the orders 0 and 1, both of
  width 50, with \<open>nodesep = 50\<close>, \<open>edgesep = 10\<close> and no edges, \<open>positionX\<close> returns
  \<open>x(a) = 0\<close> and \<open>x(b) = 100\<close>, so \<open>x(b) - x(a) = 100\<close>.
\<close>

theorem positionX_s2:
  "positionX s2_graph = Inr [(''a'', Some 0), (''b'', Some 100)] \<and>
   (\<exists>res xa xb. positionX s2_graph = Inr res \<and> map_of res ''a'' = Some (Some xa) \<and>
      map_of res ''b'' = Some (Some xb) \<and> xb - xa = 100)"
proof -
  have "map_of [(''a'', Some (0::real)), (''b'', Some 100)] ''a'' = Some (Some 0)"
    "map_of [(''a'', Some (0::real)), (''b'', Some 100)] ''b'' = Some (Some 100)"
    "(100::real) - 0 = 100"
    by simp_all
  with s2_positionX show ?thesis by blast
qed

end
